theory Spec2Isabelle
  imports Main "HOL-Library.Word"
begin

unbundle bit_operations_syntax

section \<open>Machine types and faults\<close>

text \<open>
  The program is C over the fixed-width unsigned types of \<^verbatim>\<open>stdint.h\<close>. Each of them is
  a word of that width: arithmetic wraps, \<^verbatim>\<open>%\<close> is \<open>mod\<close>, \<^verbatim>\<open>>>= 1\<close> is \<open>drop_bit 1\<close>,
  \<^verbatim>\<open>& 1\<close> is \<open>AND 1\<close>, a conversion between widths is \<open>ucast\<close>.

  What C leaves without a value is a fault of the model: a remainder by zero, a read past
  the end of the witness array, a loop that never exits, and control that reaches the end
  of a function declared to return a value.
\<close>

type_synonym uint8 = "8 word"
type_synonym uint16 = "16 word"
type_synonym uint32 = "32 word"
type_synonym uint64 = "64 word"

datatype fault = DivisionByZero | OutOfBounds | NoTermination | NoReturnValue

section \<open>ModulusPow\<close>

text \<open>
  The \<^verbatim>\<open>while (exp > 0)\<close> loop of \<^verbatim>\<open>ModulusPow\<close>, on the variables it updates. The exponent
  is halved at every turn, which is the measure of termination.
\<close>

function ModulusPow_while :: "uint64 \<Rightarrow> uint64 \<Rightarrow> uint64 \<Rightarrow> uint64 \<Rightarrow> uint64" where
  "ModulusPow_while base exp m result =
     (if exp > 0 then
        ModulusPow_while (((base mod m) * (base mod m)) mod m) (drop_bit 1 exp) m
          (if exp AND 1 \<noteq> 0 then ((result mod m) * (base mod m)) mod m else result)
      else result)"
  by pat_completeness auto
termination
proof (relation "measure (\<lambda>(base, exp, m, result). unat exp)")
  show "wf (measure (\<lambda>(base, exp, m, result). unat exp))"
    by simp
next
  fix base exp m result :: uint64
  assume "0 < exp"
  then have "unat exp \<noteq> 0"
    by (simp add: unat_gt_0)
  then have "unat exp div 2 < unat exp"
    by simp
  then show "((((base mod m) * (base mod m)) mod m, drop_bit 1 exp, m,
               if exp AND 1 \<noteq> 0 then ((result mod m) * (base mod m)) mod m else result),
              (base, exp, m, result))
             \<in> measure (\<lambda>(base, exp, m, result). unat exp)"
    by (simp add: unat_drop_bit_eq drop_bit_eq_div unat_div_distrib)
qed

declare ModulusPow_while.simps [simp del]

definition ModulusPow :: "uint64 \<Rightarrow> uint64 \<Rightarrow> uint64 \<Rightarrow> fault + uint64" where
  "ModulusPow base exp m =
     (if m = 0 then Inl DivisionByZero
      else Inr (ModulusPow_while (base mod m) exp m 1))"

section \<open>IsEven and Power\<close>

definition IsEven :: "uint32 \<Rightarrow> bool" where
  "IsEven val = (if val mod 2 \<noteq> 0 then False else True)"

text \<open>The \<^verbatim>\<open>for (i = 1; i < n; i++)\<close> loop of \<^verbatim>\<open>Power\<close>; \<open>i\<close> and \<open>n\<close> are bytes.\<close>

function Power_for :: "uint32 \<Rightarrow> uint32 \<Rightarrow> uint8 \<Rightarrow> uint8 \<Rightarrow> uint32" where
  "Power_for val OldVal n i =
     (if i < n then Power_for (val * OldVal) OldVal n (i + 1) else val)"
  by pat_completeness auto
termination
proof (relation "measure (\<lambda>(val, OldVal, n, i). unat n - unat i)")
  show "wf (measure (\<lambda>(val, OldVal, n, i). unat n - unat i))"
    by simp
next
  fix val OldVal :: uint32 and n i :: uint8
  assume "i < n"
  then have lt: "unat i < unat n"
    by (simp add: word_less_nat_alt)
  moreover have "unat n < 256"
    using unsigned_less [of n, where 'a = nat] by simp
  ultimately have "unat (i + 1) = unat i + 1"
    by (simp add: unat_word_ariths)
  with lt show "((val * OldVal, OldVal, n, i + 1), (val, OldVal, n, i))
             \<in> measure (\<lambda>(val, OldVal, n, i). unat n - unat i)"
    by simp
qed

declare Power_for.simps [simp del]

definition Power :: "uint32 \<Rightarrow> uint8 \<Rightarrow> uint32" where
  "Power val n = (if n \<noteq> 0 then Power_for val val n 1 else 1)"

section \<open>MillerRabin\<close>

text \<open>
  The first loop, \<^verbatim>\<open>while (IsEven(d)) { s++; d >>= 1; }\<close>. At \<open>d = 0\<close> it never exits
  (zero is even and stays zero), so it is a partial function: \<open>None\<close> is the run that
  does not return.
\<close>

partial_function (option) MillerRabin_factor :: "uint32 \<Rightarrow> uint16 \<Rightarrow> (uint32 \<times> uint16) option" where
  "MillerRabin_factor d s =
     (if IsEven d then MillerRabin_factor (drop_bit 1 d) (s + 1) else Some (d, s))"

declare MillerRabin_factor.simps [code]

text \<open>
  The inner \<^verbatim>\<open>for (i = 1; i < s; i++)\<close> loop. \<open>None\<close> is its \<^verbatim>\<open>return false\<close>; \<open>Some i\<close> is
  the value of \<open>i\<close> with which the loop is left, by \<^verbatim>\<open>break\<close> or by its condition.
\<close>

function MillerRabin_for :: "uint64 \<Rightarrow> uint64 \<Rightarrow> uint16 \<Rightarrow> uint16 \<Rightarrow> uint16 option" where
  "MillerRabin_for n x s i =
     (if i < s then
        (if ((x mod n) * (x mod n)) mod n = 1 then None
         else if ((x mod n) * (x mod n)) mod n = n - 1 then Some i
         else MillerRabin_for n (((x mod n) * (x mod n)) mod n) s (i + 1))
      else Some i)"
  by pat_completeness auto
termination
proof (relation "measure (\<lambda>(n, x, s, i). unat s - unat i)")
  show "wf (measure (\<lambda>(n, x, s, i). unat s - unat i))"
    by simp
next
  fix n x :: uint64 and s i :: uint16
  assume "i < s"
  then have lt: "unat i < unat s"
    by (simp add: word_less_nat_alt)
  moreover have "unat s < 65536"
    using unsigned_less [of s, where 'a = nat] by simp
  ultimately have "unat (i + 1) = unat i + 1"
    by (simp add: unat_word_ariths)
  with lt show "((n, ((x mod n) * (x mod n)) mod n, s, i + 1), (n, x, s, i))
             \<in> measure (\<lambda>(n, x, s, i). unat s - unat i)"
    by simp
qed

declare MillerRabin_for.simps [simp del]

text \<open>
  The \<^verbatim>\<open>while (k)\<close> loop over the witnesses, read from the end of the array \<open>g\<close> by
  \<^verbatim>\<open>g[--k]\<close>. The exponent \<open>d\<close> is a \<^verbatim>\<open>uint32_t\<close> widened for the call of \<^verbatim>\<open>ModulusPow\<close>.
\<close>

function MillerRabin_while :: "uint64 \<Rightarrow> uint32 list \<Rightarrow> uint8 \<Rightarrow> uint32 \<Rightarrow> uint16 \<Rightarrow> fault + bool" where
  "MillerRabin_while n g k d s =
     (if k \<noteq> 0 then
        (if length g \<le> unat (k - 1) then Inl OutOfBounds
         else
           (case ModulusPow (ucast (g ! unat (k - 1))) (ucast d) n of
              Inl e \<Rightarrow> Inl e
            | Inr x \<Rightarrow>
                if x = 1 \<or> x = n - 1 then MillerRabin_while n g (k - 1) d s
                else
                  (case MillerRabin_for n x s 1 of
                     None \<Rightarrow> Inr False
                   | Some i \<Rightarrow>
                       if i = s then Inr False
                       else MillerRabin_while n g (k - 1) d s)))
      else Inr True)"
  by pat_completeness auto
termination
proof (relation "measure (\<lambda>(n, g, k, d, s). unat k)")
  show "wf (measure (\<lambda>(n, g, k, d, s). unat k))"
    by simp
next
  fix n :: uint64 and g :: "uint32 list" and k :: uint8 and d :: uint32 and s :: uint16
    and x :: uint64
  assume "k \<noteq> 0"
  then have "unat (k - 1) < unat k"
    by (simp add: unat_minus_one unat_gt_0 word_neq_0_conv)
  then show "((n, g, k - 1, d, s), (n, g, k, d, s)) \<in> measure (\<lambda>(n, g, k, d, s). unat k)"
    by simp
  fix i :: uint16
  from \<open>unat (k - 1) < unat k\<close>
  show "((n, g, k - 1, d, s), (n, g, k, d, s)) \<in> measure (\<lambda>(n, g, k, d, s). unat k)"
    by simp
qed

declare MillerRabin_while.simps [simp del]

text \<open>
  \<^verbatim>\<open>uint32_t d = n - 1\<close> keeps the low 32 bits of the 64-bit difference.
\<close>

definition MillerRabin :: "uint64 \<Rightarrow> uint32 list \<Rightarrow> uint8 \<Rightarrow> fault + bool" where
  "MillerRabin n g k =
     (case MillerRabin_factor (ucast (n - 1)) 0 of
        None \<Rightarrow> Inl NoTermination
      | Some (d, s) \<Rightarrow> MillerRabin_while n g k d s)"

section \<open>IsPrime\<close>

text \<open>
  \<^verbatim>\<open>IsPrime\<close> with the function it hands the odd candidates to as a parameter, so that a
  statement can say that a result does not depend on that function. The last comparison
  is against a constant that does not fit 32 bits, so C makes it in 64 bits. After the
  last \<^verbatim>\<open>if\<close> the source has no \<^verbatim>\<open>return\<close>.
\<close>

definition IsPrime_with :: "(uint64 \<Rightarrow> uint32 list \<Rightarrow> uint8 \<Rightarrow> fault + bool) \<Rightarrow> uint32 \<Rightarrow> fault + bool" where
  "IsPrime_with test n =
     (if n mod 2 = 0 \<or> n \<le> 1 then Inr False
      else if n < 2047 then test (ucast n) [2] 1
      else if n < 1373653 then test (ucast n) [2, 3] 2
      else if n < 9080191 then test (ucast n) [31, 73] 2
      else if n < 25326001 then test (ucast n) [2, 3, 5] 3
      else if (ucast n :: uint64) < 4759123141 then test (ucast n) [2, 7, 61] 3
      else Inl NoReturnValue)"

definition IsPrime :: "uint32 \<Rightarrow> fault + bool" where
  "IsPrime n = IsPrime_with MillerRabin n"

section \<open>FindLTP\<close>

text \<open>
  The locals of \<^verbatim>\<open>FindLTP\<close> that live across its loops, in two records: those that only
  the \<^verbatim>\<open>while\<close> loop assigns, once per round, and those that the scan updates. The loop
  counters \<open>i\<close>, \<open>u\<close> and \<open>v\<close> and the candidate \<open>num\<close> are arguments of the loop
  functions below.
\<close>

definition BUF_LENGTH :: nat where
  "BUF_LENGTH = 680"

record ltp_round =
  order :: uint16
  PwVal :: uint32
  LTP_IndexProc :: uint16
  LTP_IndexOldFree :: uint16

record ltp_state =
  LTP_Buf :: "uint32 list"
  LTP_IndexFree :: uint16
  PrimesCount :: uint16

text \<open>
  The loop \<^verbatim>\<open>for (v = 1; v < 10; v++) if (IsPrime(num + PwValN * v)) break;\<close> of lines
  221 to 225. The result is the value of \<open>v\<close> after the loop. The sum is a
  \<^verbatim>\<open>uint32_t\<close> and wraps.
\<close>

function FindLTP_for_v :: "uint32 \<Rightarrow> uint32 \<Rightarrow> uint16 \<Rightarrow> fault + uint16" where
  "FindLTP_for_v num PwValN v =
     (if v < 10 then
        (case IsPrime (num + PwValN * ucast v) of
           Inl e \<Rightarrow> Inl e
         | Inr p \<Rightarrow> if p then Inr v else FindLTP_for_v num PwValN (v + 1))
      else Inr v)"
  by pat_completeness auto
termination
proof (relation "measure (\<lambda>(num, PwValN, v). 10 - unat v)")
  show "wf (measure (\<lambda>(num, PwValN, v). 10 - unat v))"
    by simp
next
  fix num PwValN :: uint32 and v :: uint16
  assume "v < 10"
  then have lt: "unat v < 10"
    by (simp add: word_less_nat_alt)
  then have "unat (v + 1) = unat v + 1"
    by (simp add: unat_word_ariths)
  with lt show "((num, PwValN, v + 1), (num, PwValN, v)) \<in> measure (\<lambda>(num, PwValN, v). 10 - unat v)"
    by simp
qed

declare FindLTP_for_v.simps [simp del]

text \<open>
  The store of lines 230 to 233: \<^verbatim>\<open>LTP_Buf[LTP_IndexFree++] = num\<close> and the wrap of the
  write cursor.
\<close>

definition FindLTP_store :: "ltp_state \<Rightarrow> uint32 \<Rightarrow> ltp_state" where
  "FindLTP_store st num =
     st\<lparr>LTP_Buf := (LTP_Buf st)[unat (LTP_IndexFree st) := num],
        LTP_IndexFree := (if LTP_IndexFree st + 1 \<ge> 680 then 0 else LTP_IndexFree st + 1)\<rparr>"

text \<open>
  One turn of the scan \<^verbatim>\<open>for (u = LTP_IndexProc; u != LTP_IndexOldFree; )\<close>, lines 208 to 235.
  It either leaves \<^verbatim>\<open>FindLTP\<close> with the candidate (\<open>Found\<close>) or goes on with the updated
  locals and the next \<open>u\<close>. An index outside the array is a fault.
\<close>

datatype 'a scan = Found uint32 | Continue 'a

definition FindLTP_body :: "uint16 \<Rightarrow> ltp_round \<Rightarrow> ltp_state \<Rightarrow> uint16 \<Rightarrow> uint16 \<Rightarrow> fault + (ltp_state \<times> uint16) scan" where
  "FindLTP_body LTP_n rd st i u =
     (if BUF_LENGTH \<le> unat u then Inl OutOfBounds
      else
        (let num = LTP_Buf st ! unat u + ucast i * PwVal rd;
             u' = (if u + 1 \<ge> 680 then 0 else u + 1)
         in case IsPrime num of
              Inl e \<Rightarrow> Inl e
            | Inr p \<Rightarrow>
                if p then
                  (if PrimesCount st + 1 = LTP_n then Inr (Found num)
                   else
                     (case FindLTP_for_v num (Power 10 (ucast (order rd + 1))) 1 of
                        Inl e \<Rightarrow> Inl e
                      | Inr v \<Rightarrow>
                          if v < 10 then
                            (if BUF_LENGTH \<le> unat (LTP_IndexFree st) then Inl OutOfBounds
                             else Inr (Continue
                               (FindLTP_store (st\<lparr>PrimesCount := PrimesCount st + 1\<rparr>) num, u')))
                          else Inr (Continue (st\<lparr>PrimesCount := PrimesCount st + 1\<rparr>, u'))))
                else Inr (Continue (st, u'))))"

text \<open>
  The scan loop. It ends when \<open>u\<close> meets \<^verbatim>\<open>LTP_IndexOldFree\<close>, which it need not do for
  every value of the cursors, so it is a partial function.
\<close>

partial_function (option) FindLTP_for_u :: "uint16 \<Rightarrow> ltp_round \<Rightarrow> ltp_state \<Rightarrow> uint16 \<Rightarrow> uint16 \<Rightarrow> (fault + ltp_state scan) option" where
  "FindLTP_for_u LTP_n rd st i u =
     (if u \<noteq> LTP_IndexOldFree rd then
        (case FindLTP_body LTP_n rd st i u of
           Inl e \<Rightarrow> Some (Inl e)
         | Inr (Found num) \<Rightarrow> Some (Inr (Found num))
         | Inr (Continue (st', u')) \<Rightarrow> FindLTP_for_u LTP_n rd st' i u')
      else Some (Inr (Continue st)))"

declare FindLTP_for_u.simps [code]

text \<open>\<^verbatim>\<open>for (i = 1; i < 10; i++)\<close> around the scan, which starts at \<^verbatim>\<open>LTP_IndexProc\<close>.\<close>

function FindLTP_for_i :: "uint16 \<Rightarrow> ltp_round \<Rightarrow> ltp_state \<Rightarrow> uint16 \<Rightarrow> fault + ltp_state scan" where
  "FindLTP_for_i LTP_n rd st i =
     (if i < 10 then
        (case FindLTP_for_u LTP_n rd st i (LTP_IndexProc rd) of
           None \<Rightarrow> Inl NoTermination
         | Some (Inl e) \<Rightarrow> Inl e
         | Some (Inr (Found num)) \<Rightarrow> Inr (Found num)
         | Some (Inr (Continue st')) \<Rightarrow> FindLTP_for_i LTP_n rd st' (i + 1))
      else Inr (Continue st))"
  by pat_completeness auto
termination
proof (relation "measure (\<lambda>(LTP_n, rd, st, i). 10 - unat i)")
  show "wf (measure (\<lambda>(LTP_n, rd, st, i). 10 - unat i))"
    by simp
next
  fix LTP_n i :: uint16 and rd :: ltp_round and st st' :: ltp_state
  assume "i < 10"
  then have lt: "unat i < 10"
    by (simp add: word_less_nat_alt)
  then have "unat (i + 1) = unat i + 1"
    by (simp add: unat_word_ariths)
  with lt show "((LTP_n, rd, st', i + 1), (LTP_n, rd, st, i))
      \<in> measure (\<lambda>(LTP_n, rd, st, i). 10 - unat i)"
    by simp
qed

declare FindLTP_for_i.simps [simp del]

text \<open>
  The head of a round, lines 201 and 202: \<^verbatim>\<open>PwVal = Power(10, ++order)\<close> (the argument is
  a byte) and \<^verbatim>\<open>LTP_IndexOldFree = LTP_IndexFree\<close>.
\<close>

definition FindLTP_round :: "ltp_round \<Rightarrow> ltp_state \<Rightarrow> ltp_round" where
  "FindLTP_round rd st =
     rd\<lparr>order := order rd + 1,
        PwVal := Power 10 (ucast (order rd + 1)),
        LTP_IndexOldFree := LTP_IndexFree st\<rparr>"

text \<open>
  \<^verbatim>\<open>while (order < 9)\<close>. The end of a round is \<^verbatim>\<open>LTP_IndexProc = LTP_IndexOldFree\<close>; after
  the loop the source returns 0.
\<close>

function FindLTP_while :: "uint16 \<Rightarrow> ltp_round \<Rightarrow> ltp_state \<Rightarrow> fault + uint32" where
  "FindLTP_while LTP_n rd st =
     (if order rd < 9 then
        (case FindLTP_for_i LTP_n (FindLTP_round rd st) st 1 of
           Inl e \<Rightarrow> Inl e
         | Inr (Found num) \<Rightarrow> Inr num
         | Inr (Continue st') \<Rightarrow>
             FindLTP_while LTP_n
               ((FindLTP_round rd st)\<lparr>LTP_IndexProc := LTP_IndexOldFree (FindLTP_round rd st)\<rparr>) st')
      else Inr 0)"
  by pat_completeness auto
termination
proof (relation "measure (\<lambda>(LTP_n, rd, st). 9 - unat (order rd))")
  show "wf (measure (\<lambda>(LTP_n, rd, st). 9 - unat (order rd)))"
    by simp
next
  fix LTP_n :: uint16 and rd :: ltp_round and st st' :: ltp_state
  assume "order rd < 9"
  then have lt: "unat (order rd) < 9"
    by (simp add: word_less_nat_alt)
  then have "unat (order rd + 1) = unat (order rd) + 1"
    by (simp add: unat_word_ariths)
  with lt show "((LTP_n, (FindLTP_round rd st)\<lparr>LTP_IndexProc := LTP_IndexOldFree (FindLTP_round rd st)\<rparr>, st'),
        (LTP_n, rd, st))
      \<in> measure (\<lambda>(LTP_n, rd, st). 9 - unat (order rd))"
    by (simp add: FindLTP_round_def)
qed

declare FindLTP_while.simps [simp del]

text \<open>
  The initialisers of lines 188 to 191: the array holds the four seeds and zeros.
  \<^verbatim>\<open>PwVal\<close> has none and is assigned before it is read, so its value here is never used.
  \<^verbatim>\<open>LTP_Buf[LTP_n - 1]\<close> at \<open>LTP_n = 0\<close> reads before the array.
\<close>

definition FindLTP_round0 :: ltp_round where
  "FindLTP_round0 = \<lparr>order = 0, PwVal = 0, LTP_IndexProc = 0, LTP_IndexOldFree = 0\<rparr>"

definition FindLTP_init :: ltp_state where
  "FindLTP_init =
     \<lparr>LTP_Buf = [2, 3, 5, 7] @ replicate 676 0, LTP_IndexFree = 4, PrimesCount = 4\<rparr>"

definition FindLTP :: "uint16 \<Rightarrow> fault + uint32" where
  "FindLTP LTP_n =
     (if LTP_n \<le> 4 then
        (if LTP_n = 0 then Inl OutOfBounds
         else Inr (LTP_Buf FindLTP_init ! (unat LTP_n - 1)))
      else FindLTP_while LTP_n FindLTP_round0 FindLTP_init)"

section \<open>The reference oracle\<close>

text \<open>
  The oracle of the property under test, as the specification words it: trial division.
  \<open>n\<close> is prime when it is greater than 1 and no \<open>d\<close> from 2 up to the square root of
  \<open>n\<close> divides it.
\<close>

function trial_division_from :: "nat \<Rightarrow> nat \<Rightarrow> bool" where
  "trial_division_from n d =
     (if n < d * d then True
      else if n mod d = 0 then False
      else trial_division_from n (d + 1))"
  by pat_completeness auto
termination
proof (relation "measure (\<lambda>(n, d). n + 1 - d)")
  show "wf (measure (\<lambda>(n, d). n + 1 - d))"
    by simp
next
  fix n d :: nat
  assume "\<not> n < d * d"
  then have "d * d \<le> n"
    by simp
  moreover have "d \<le> d * d"
    by (cases d) simp_all
  ultimately have "d \<le> n"
    by (rule le_trans [rotated])
  then show "((n, d + 1), (n, d)) \<in> measure (\<lambda>(n, d). n + 1 - d)"
    by simp
qed

declare trial_division_from.simps [simp del]

definition trial_division_prime :: "nat \<Rightarrow> bool" where
  "trial_division_prime n = (1 < n \<and> trial_division_from n 2)"

text \<open>
  Trial division by the primes below 100 only, in ascending order; it decides the same
  for every \<open>n\<close> below \<open>101 * 101\<close> and is what the evaluation below runs.
\<close>

definition small_primes :: "nat list" where
  "small_primes =
     [2, 3, 5, 7, 11, 13, 17, 19, 23, 29, 31, 37, 41, 43, 47, 53, 59, 61, 67, 71, 73, 79,
      83, 89, 97]"

fun no_factor_in :: "nat \<Rightarrow> nat list \<Rightarrow> bool" where
  "no_factor_in n [] = True"
| "no_factor_in n (p # ps) =
     (if n < p * p then True
      else if n mod p = 0 then False
      else no_factor_in n ps)"

section \<open>MillerRabin on naturals\<close>

text \<open>
  The loops of \<^verbatim>\<open>MillerRabin\<close> once more, on natural numbers and with the modular power
  in the place of \<^verbatim>\<open>ModulusPow\<close>; the witnesses come in the order in which the code
  reads them. Below they are proved to give the results of the functions on words, for a
  modulus of 32 bits.
\<close>

function factor_nat :: "nat \<Rightarrow> nat \<Rightarrow> nat \<times> nat" where
  "factor_nat d s = (if d \<noteq> 0 \<and> even d then factor_nat (d div 2) (s + 1) else (d, s))"
  by pat_completeness auto
termination
  by (relation "measure (\<lambda>(d, s). d)") auto

declare factor_nat.simps [simp del]

function for_nat :: "nat \<Rightarrow> nat \<Rightarrow> nat \<Rightarrow> nat \<Rightarrow> nat option" where
  "for_nat n x s i =
     (if i < s then
        (if x * x mod n = 1 then None
         else if x * x mod n = n - 1 then Some i
         else for_nat n (x * x mod n) s (i + 1))
      else Some i)"
  by pat_completeness auto
termination
  by (relation "measure (\<lambda>(n, x, s, i). s - i)") auto

declare for_nat.simps [simp del]

fun while_nat :: "nat \<Rightarrow> nat list \<Rightarrow> nat \<Rightarrow> nat \<Rightarrow> bool" where
  "while_nat n [] d s = True"
| "while_nat n (g # gs) d s =
     (if g ^ d mod n = 1 \<or> g ^ d mod n = n - 1 then while_nat n gs d s
      else (case for_nat n (g ^ d mod n) s 1 of
              None \<Rightarrow> False
            | Some i \<Rightarrow> if i = s then False else while_nat n gs d s))"

definition MillerRabin_nat :: "nat \<Rightarrow> nat list \<Rightarrow> bool" where
  "MillerRabin_nat n gs = (case factor_nat (n - 1) 0 of (d, s) \<Rightarrow> while_nat n gs d s)"

section \<open>Evaluation on numerals\<close>

text \<open>
  What follows serves the evaluation of the two tests on the numbers up to 10000 by
  rewriting. The remainder is taken by doubling the divisor and subtracting; every
  intermediate value has a function of its own, so that it is computed once.
\<close>

definition sub_if :: "nat \<Rightarrow> nat \<Rightarrow> nat" where
  "sub_if r n = (if r < n then r else r - n)"

function dm :: "nat \<Rightarrow> nat \<Rightarrow> nat" where
  "dm x n = (if n = 0 \<or> x < n then x else sub_if (dm x (2 * n)) n)"
  by pat_completeness auto
termination
  by (relation "measure (\<lambda>(x, n). x + 1 - n)") auto

declare dm.simps [simp del]

definition sqm :: "nat \<Rightarrow> nat \<Rightarrow> nat" where
  "sqm x n = x * x mod n"

definition powmod :: "nat \<Rightarrow> nat \<Rightarrow> nat \<Rightarrow> nat" where
  "powmod g d n = g ^ d mod n"

definition for_step :: "nat \<Rightarrow> nat \<Rightarrow> nat \<Rightarrow> nat \<Rightarrow> nat option" where
  "for_step n y s i =
     (if y = 1 then None else if y = n - 1 then Some i else for_nat n y s (i + 1))"

definition after_for :: "nat option \<Rightarrow> nat \<Rightarrow> bool \<Rightarrow> bool" where
  "after_for r s rest = (case r of None \<Rightarrow> False | Some i \<Rightarrow> if i = s then False else rest)"

definition while_step :: "nat \<Rightarrow> nat list \<Rightarrow> nat \<Rightarrow> nat \<Rightarrow> nat \<Rightarrow> bool" where
  "while_step n gs d s x =
     (if x = 1 \<or> x = n - 1 then while_nat n gs d s
      else after_for (for_nat n x s 1) s (while_nat n gs d s))"

definition MillerRabin_run :: "nat \<Rightarrow> nat list \<Rightarrow> nat \<times> nat \<Rightarrow> bool" where
  "MillerRabin_run n gs ds = while_nat n gs (fst ds) (snd ds)"

definition factor_step :: "nat \<Rightarrow> nat \<Rightarrow> nat list \<Rightarrow> bool" where
  "factor_step n r ps = (if r = 0 then False else no_factor_in n ps)"

text \<open>
  The two tests agree on \<open>n\<close>; and on \<open>k\<close> odd numbers in a row from \<open>n\<close> on.
\<close>

definition agree :: "nat \<Rightarrow> bool" where
  "agree n \<longleftrightarrow>
     MillerRabin_nat n (if n < 2047 then [2] else [3, 2]) = no_factor_in n small_primes"

fun agree_run :: "nat \<Rightarrow> nat \<Rightarrow> bool" where
  "agree_run n 0 = True"
| "agree_run n (Suc k) = (agree n \<and> agree_run (n + 2) k)"

section \<open>Words as naturals\<close>

lemma unat_mult_small:
  fixes a b :: uint64
  assumes "unat a < 2 ^ 32" and "unat b < 2 ^ 32"
  shows "unat (a * b) = unat a * unat b"
proof -
  have "unat a * unat b < 2 ^ 32 * 2 ^ 32"
    using assms by (intro mult_strict_mono) simp_all
  then have "unat a * unat b < 2 ^ LENGTH(64)"
    by simp
  then show ?thesis
    by (simp only: unat_mult_lem)
qed

lemma unat_modmul:
  fixes a b m :: uint64
  assumes "m \<noteq> 0" and "unat m \<le> 2 ^ 32"
  shows "unat (((a mod m) * (b mod m)) mod m) = (unat a * unat b) mod unat m"
proof -
  from assms(1) have pos: "0 < unat m"
    by (simp add: unat_gt_0)
  have "unat a mod unat m < unat m" "unat b mod unat m < unat m"
    using pos by simp_all
  with assms(2) have "unat (a mod m) < 2 ^ 32" "unat (b mod m) < 2 ^ 32"
    unfolding unat_mod_distrib by linarith+
  then have "unat ((a mod m) * (b mod m)) = (unat a mod unat m) * (unat b mod unat m)"
    by (simp add: unat_mult_small unat_mod_distrib)
  then show ?thesis
    by (simp add: unat_mod_distrib mod_mult_eq)
qed

lemma and_one_odd:
  fixes e :: uint64
  shows "e AND 1 \<noteq> 0 \<longleftrightarrow> odd (unat e)"
proof -
  have "e AND 1 = e mod 2"
    by (rule and_one_eq)
  moreover have "e mod 2 \<noteq> 0 \<longleftrightarrow> unat (e mod 2) \<noteq> 0"
    by (simp add: unat_eq_zero)
  ultimately show ?thesis
    by (simp add: unat_mod_distrib odd_iff_mod_2_eq_one)
qed

lemma unat_half:
  fixes e :: "'a::len word"
  shows "unat (drop_bit 1 e) = unat e div 2"
proof -
  have "unat (drop_bit 1 e) = drop_bit 1 (unat e)"
    by (rule unat_drop_bit_eq)
  also have "\<dots> = unat e div 2"
    by (simp add: drop_bit_eq_div)
  finally show ?thesis .
qed

lemma mod_pow_cong:
  fixes r x m :: nat
  shows "(r * (x mod m) ^ k) mod m = (r * x ^ k) mod m"
proof -
  have "(r * (x mod m) ^ k) mod m = (r * ((x mod m) ^ k mod m)) mod m"
    by (simp add: mod_mult_right_eq)
  also have "\<dots> = (r * (x ^ k mod m)) mod m"
    by (simp only: power_mod)
  also have "\<dots> = (r * x ^ k) mod m"
    by (simp add: mod_mult_right_eq)
  finally show ?thesis .
qed

section \<open>ModulusPow computes the modular power\<close>

text \<open>
  The loop invariant, read on naturals: with a modulus of at most \<open>2 ^ 32\<close> no product
  of two residues leaves 64 bits, and the loop returns \<open>result * base ^ exp mod m\<close>.
\<close>

lemma ModulusPow_while_nat:
  "m \<noteq> 0 \<Longrightarrow> unat m \<le> 2 ^ 32 \<Longrightarrow> unat result < unat m \<Longrightarrow>
   unat (ModulusPow_while base exp m result) = (unat result * unat base ^ unat exp) mod unat m"
proof (induction base exp m result rule: ModulusPow_while.induct)
  case (1 base exp m result)
  show ?case
  proof (cases "0 < exp")
    case False
    then have "exp = 0"
      by (metis word_neq_0_conv)
    with "1.prems" show ?thesis
      by (subst ModulusPow_while.simps) simp
  next
    case True
    let ?b = "((base mod m) * (base mod m)) mod m"
    let ?r = "if exp AND 1 \<noteq> 0 then ((result mod m) * (base mod m)) mod m else result"
    from "1.prems" have pos: "0 < unat m"
      by (simp add: unat_gt_0)
    have b: "unat ?b = (unat base * unat base) mod unat m"
      using "1.prems" by (simp add: unat_modmul)
    have r: "unat ?r = (if odd (unat exp) then (unat result * unat base) mod unat m else unat result)"
      using "1.prems" by (simp add: unat_modmul and_one_odd)
    have rlt: "unat ?r < unat m"
      unfolding r using pos "1.prems"(3) by simp
    have "unat (ModulusPow_while base exp m result) = unat (ModulusPow_while ?b (drop_bit 1 exp) m ?r)"
      using True by (subst ModulusPow_while.simps) simp
    also have "\<dots> = (unat ?r * unat ?b ^ unat (drop_bit 1 exp)) mod unat m"
      using "1.IH" [OF True "1.prems"(1,2) rlt] .
    also have "\<dots> = (unat ?r * (unat base * unat base) ^ (unat exp div 2)) mod unat m"
      by (simp only: b unat_half mod_pow_cong)
    also have "\<dots> = (unat result * unat base ^ unat exp) mod unat m"
    proof (cases "odd (unat exp)")
      case False
      then have "unat exp = 2 * (unat exp div 2)"
        by simp
      then have "unat base ^ unat exp = (unat base ^ 2) ^ (unat exp div 2)"
        by (simp only: power_mult [symmetric])
      then have "unat base ^ unat exp = (unat base * unat base) ^ (unat exp div 2)"
        by (simp only: power2_eq_square)
      with False show ?thesis
        unfolding r by simp
    next
      case odd: True
      then have "unat exp = Suc (2 * (unat exp div 2))"
        by simp
      then have "unat base ^ unat exp = unat base * (unat base ^ 2) ^ (unat exp div 2)"
        by (simp only: power_mult [symmetric] power_Suc [symmetric])
      then have "unat base ^ unat exp = unat base * (unat base * unat base) ^ (unat exp div 2)"
        by (simp only: power2_eq_square)
      then have "unat result * unat base ^ unat exp
          = (unat result * unat base) * (unat base * unat base) ^ (unat exp div 2)"
        by (simp only: mult.assoc)
      then have "(unat result * unat base ^ unat exp) mod unat m
          = ((unat result * unat base) mod unat m * (unat base * unat base) ^ (unat exp div 2)) mod unat m"
        by (simp only: mod_mult_left_eq)
      with odd show ?thesis
        unfolding r by (simp only: if_True simp_thms)
    qed
    finally show ?thesis .
  qed
qed

text \<open>With modulus 1 every product is reduced to 0; only the initial \<open>result\<close> is not.\<close>

lemma ModulusPow_while_one:
  "ModulusPow_while base exp 1 result = (if exp = 0 then result else 0)"
proof (induction base exp "1 :: uint64" result rule: ModulusPow_while.induct)
  case (1 base exp result)
  show ?case
  proof (cases "0 < exp")
    case False
    then have "exp = 0"
      by (metis word_neq_0_conv)
    then show ?thesis
      by (subst ModulusPow_while.simps) simp
  next
    case True
    then have ne: "exp \<noteq> 0"
      by (metis word_neq_0_conv)
    have "drop_bit 1 exp = 0 \<Longrightarrow> exp AND 1 \<noteq> 0"
    proof -
      assume "drop_bit 1 exp = 0"
      then have "unat exp div 2 = 0"
        by (metis unat_half unat_eq_zero)
      moreover from ne have "unat exp \<noteq> 0"
        by (simp add: unat_eq_zero)
      ultimately have "odd (unat exp)"
        by presburger
      then show ?thesis
        by (simp add: and_one_odd)
    qed
    then show ?thesis
      using True ne "1.hyps" [OF True]
      by (subst ModulusPow_while.simps) auto
  qed
qed

lemma ModulusPow_nat:
  assumes "m \<noteq> 0" and "unat m \<le> 2 ^ 32" and "1 < unat m"
  shows "ModulusPow b e m = Inr (of_nat (unat b ^ unat e mod unat m))"
proof -
  have "unat (ModulusPow_while (b mod m) e m 1) = (unat (1 :: uint64) * unat (b mod m) ^ unat e) mod unat m"
    using assms by (intro ModulusPow_while_nat) simp_all
  also have "\<dots> = (unat b ^ unat e) mod unat m"
    by (simp add: unat_mod_distrib power_mod)
  finally have "of_nat (unat (ModulusPow_while (b mod m) e m 1)) = (of_nat (unat b ^ unat e mod unat m) :: uint64)"
    by (rule arg_cong)
  then have "ModulusPow_while (b mod m) e m 1 = of_nat (unat b ^ unat e mod unat m)"
    by simp
  with assms(1) show ?thesis
    by (simp add: ModulusPow_def)
qed

text \<open>
  Claim C4, as the code has it. For every base and exponent and every modulus from 1 to
  \<open>2 ^ 32\<close>, \<^verbatim>\<open>ModulusPow\<close> returns \<open>base ^ exp mod m\<close>, except that at exponent 0 and
  modulus 1 it returns 1 where the power is 0 modulo 1; and at exponent 0 it returns 1
  for every modulus other than 0. Above \<open>2 ^ 32\<close> a product of two residues can leave
  64 bits.
\<close>

theorem ModulusPow_is_power_mod:
  "m \<noteq> 0 \<Longrightarrow>
   (unat m \<le> 2 ^ 32 \<and> (e \<noteq> 0 \<or> m \<noteq> 1)
      \<longrightarrow> ModulusPow b e m = Inr (of_nat (unat b ^ unat e mod unat m)))
   \<and> ModulusPow b 0 m = Inr 1"
proof (intro conjI impI)
  assume m: "m \<noteq> 0"
  then show "ModulusPow b 0 m = Inr 1"
    by (simp add: ModulusPow_def ModulusPow_while.simps)
  assume h: "unat m \<le> 2 ^ 32 \<and> (e \<noteq> 0 \<or> m \<noteq> 1)"
  show "ModulusPow b e m = Inr (of_nat (unat b ^ unat e mod unat m))"
  proof (cases "m = 1")
    case True
    with h have "e \<noteq> 0"
      by simp
    with True show ?thesis
      by (simp add: ModulusPow_def ModulusPow_while_one)
  next
    case False
    with m have "unat m \<noteq> unat (0 :: uint64)" "unat m \<noteq> unat (1 :: uint64)"
      by (simp_all only: word_unat_eq_iff [symmetric] not_False_eq_True)
    then have "unat m \<noteq> 0" "unat m \<noteq> 1"
      by simp_all
    then have "1 < unat m"
      by simp
    with m h show ?thesis
      by (simp add: ModulusPow_nat)
  qed
qed

theorem ModulusPow_is_power_mod_witness:
  "(7 :: uint64) \<noteq> 0 \<and> unat (7 :: uint64) \<le> 2 ^ 32 \<and> (5 :: uint64) \<noteq> 0
   \<and> ModulusPow 3 5 7 = Inr 5 \<and> ModulusPow 3 0 7 = Inr 1"
  using ModulusPow_is_power_mod [of 7 5 3] by simp

text \<open>
  The claim as written fails twice: at exponent 0 and modulus 1 the result is 1, and
  with the modulus \<open>2 ^ 64 - 1\<close> the square of \<open>2 ^ 32\<close> wraps to 0 although
  \<open>2 ^ 64 mod (2 ^ 64 - 1) = 1\<close>.
\<close>

theorem ModulusPow_power_mod_counterexample:
  "ModulusPow 5 0 1 \<noteq> Inr (of_nat (unat (5 :: uint64) ^ unat (0 :: uint64) mod unat (1 :: uint64)))
   \<and> ModulusPow 4294967296 2 18446744073709551615
       \<noteq> Inr (of_nat (unat (4294967296 :: uint64) ^ unat (2 :: uint64)
                  mod unat (18446744073709551615 :: uint64)))"
  by (simp add: ModulusPow_def ModulusPow_while.simps)

text \<open>
  Claim C5, as the code has it: for every base and every exponent other than 0,
  \<^verbatim>\<open>ModulusPow(b, e, 1)\<close> returns 0.
\<close>

theorem ModulusPow_modulus_one:
  "e \<noteq> 0 \<Longrightarrow> ModulusPow b e 1 = Inr 0"
  by (simp add: ModulusPow_def ModulusPow_while_one)

theorem ModulusPow_modulus_one_witness:
  "(4 :: uint64) \<noteq> 0 \<and> ModulusPow 9 4 1 = Inr 0"
  using ModulusPow_modulus_one [of 4 9] by simp

text \<open>At exponent 0 the loop is not entered and the initial 1 is returned.\<close>

theorem ModulusPow_modulus_one_counterexample:
  "ModulusPow 7 0 1 \<noteq> Inr 0"
  by (simp add: ModulusPow_def ModulusPow_while.simps)

section \<open>IsPrime returns on every input\<close>

lemma MillerRabin_factor_returns:
  "d \<noteq> 0 \<Longrightarrow> \<exists>r. MillerRabin_factor d s = Some r"
proof (induction "unat d" arbitrary: d s rule: less_induct)
  case less
  show ?case
  proof (cases "IsEven d")
    case False
    then show ?thesis
      by (subst MillerRabin_factor.simps) simp
  next
    case True
    then have ev: "even (unat d)"
      by (simp add: IsEven_def unat_mod_distrib word_eq_iff_unsigned [where ?'a = nat] split: if_splits) presburger
    from less.prems have pos: "0 < unat d"
      by (simp add: unat_gt_0)
    from ev pos have "unat d div 2 \<noteq> 0"
      by presburger
    then have "drop_bit 1 d \<noteq> 0"
      by (metis unat_half unat_eq_zero)
    moreover from pos have "unat (drop_bit 1 d) < unat d"
      unfolding unat_half by simp
    ultimately have "\<exists>r. MillerRabin_factor (drop_bit 1 d) (s + 1) = Some r"
      by (rule less.hyps [rotated])
    with True show ?thesis
      by (subst MillerRabin_factor.simps) simp
  qed
qed

lemma MillerRabin_while_returns:
  "n \<noteq> 0 \<Longrightarrow> unat k \<le> length g \<Longrightarrow> \<exists>b. MillerRabin_while n g k d s = Inr b"
proof (induction n g k d s rule: MillerRabin_while.induct)
  case (1 n g k d s)
  show ?case
  proof (cases "k = 0")
    case True
    then show ?thesis
      by (subst MillerRabin_while.simps) auto
  next
    case False
    then have lt: "unat (k - 1) < unat k"
      by (simp add: unat_minus_one unat_gt_0 word_neq_0_conv)
    with "1.prems" have inb: "\<not> length g \<le> unat (k - 1)" and le: "unat (k - 1) \<le> length g"
      by simp_all
    obtain x where x: "ModulusPow (ucast (g ! unat (k - 1))) (ucast d) n = Inr x"
      using "1.prems" by (simp add: ModulusPow_def)
    have ih1: "x = 1 \<or> x = n - 1 \<Longrightarrow> \<exists>b. MillerRabin_while n g (k - 1) d s = Inr b"
      using "1.IH"(1) [OF False inb x] "1.prems"(1) le by simp
    have ih2: "\<not> (x = 1 \<or> x = n - 1) \<Longrightarrow> MillerRabin_for n x s 1 = Some i \<Longrightarrow> i \<noteq> s
        \<Longrightarrow> \<exists>b. MillerRabin_while n g (k - 1) d s = Inr b" for i
      using "1.IH"(2) [OF False inb x] "1.prems"(1) le by simp
    show ?thesis
      using False inb x ih1 ih2
      by (subst MillerRabin_while.simps) (auto split: option.splits)
  qed
qed

lemma unat_ucast_32_64:
  fixes n :: uint32
  shows "unat (ucast n :: uint64) = unat n"
proof -
  have "unat n < 2 ^ 32"
    using unsigned_less [of n, where 'a = nat] by simp
  then have "unat n < 2 ^ 64"
    by simp
  then have "take_bit 64 (unat n) = unat n"
    by (simp only: take_bit_nat_eq_self_iff)
  then show ?thesis
    by (simp add: unsigned_ucast_eq)
qed

text \<open>The candidates that \<^verbatim>\<open>IsPrime\<close> hands on are at least 3, so \<open>n - 1\<close> is not 0.\<close>

lemma MillerRabin_returns:
  fixes n :: uint32
  assumes "\<not> n \<le> 1" and "unat k \<le> length g"
  shows "\<exists>b. MillerRabin (ucast n) g k = Inr b"
proof -
  from assms(1) have gt: "1 < unat n"
    by (simp add: word_le_nat_alt)
  have un: "unat (ucast n :: uint64) = unat n"
    by (rule unat_ucast_32_64)
  have m1: "unat (ucast n - 1 :: uint64) = unat n - 1"
    using gt un by (simp add: unat_sub word_le_nat_alt)
  have "unat n - 1 < 2 ^ 32"
    using unsigned_less [of n, where 'a = nat] by simp
  then have "take_bit 32 (unat n - 1) = unat n - 1"
    by (simp only: take_bit_nat_eq_self_iff)
  with m1 have "unat (ucast (ucast n - 1 :: uint64) :: uint32) = unat n - 1"
    by (simp add: unsigned_ucast_eq)
  with gt have "(ucast (ucast n - 1 :: uint64) :: uint32) \<noteq> 0"
    by (metis unat_eq_zero zero_less_diff less_numeral_extra(3))
  then obtain r where r: "MillerRabin_factor (ucast (ucast n - 1 :: uint64)) 0 = Some r"
    using MillerRabin_factor_returns by blast
  from gt un have "(ucast n :: uint64) \<noteq> 0"
    by (metis unat_eq_zero not_less_zero)
  then have "\<exists>b. MillerRabin_while (ucast n) g k (fst r) (snd r) = Inr b"
    using assms(2) by (rule MillerRabin_while_returns)
  with r show ?thesis
    by (cases r) (simp add: MillerRabin_def)
qed

lemma below_last_threshold:
  fixes n :: uint32
  shows "(ucast n :: uint64) < 4759123141"
proof -
  have "unat (ucast n :: uint64) = unat n"
    by (rule unat_ucast_32_64)
  moreover have "unat n < 2 ^ 32"
    using unsigned_less [of n, where 'a = nat] by simp
  ultimately show ?thesis
    by (simp add: word_less_nat_alt)
qed

lemma IsPrime_returns:
  "\<exists>b. IsPrime n = Inr b"
proof (cases "n mod 2 = 0 \<or> n \<le> 1")
  case True
  then have "IsPrime n = Inr False"
    by (simp add: IsPrime_def IsPrime_with_def)
  then show ?thesis
    by blast
next
  case False
  then have "\<not> n \<le> 1"
    by simp
  then have "\<exists>b. MillerRabin (ucast n) g k = Inr b" if "unat k \<le> length g" for g k
    using that by (rule MillerRabin_returns)
  from this [of 1 "[2]"] this [of 2 "[2, 3]"] this [of 2 "[31, 73]"]
    this [of 3 "[2, 3, 5]"] this [of 3 "[2, 7, 61]"]
  show ?thesis
    using False below_last_threshold [of n]
    by (simp add: IsPrime_def IsPrime_with_def)
qed

text \<open>
  Claim C10. A 32-bit candidate is below 4,759,123,141, so the last range check holds
  for every candidate that reaches it, and \<^verbatim>\<open>IsPrime\<close> returns true or false on every
  input: the end of the function, where no value is returned, is not reached, and the loops
  of \<^verbatim>\<open>MillerRabin\<close> exit.
\<close>

theorem IsPrime_total:
  "(ucast n :: uint64) < 4759123141 \<and> (\<exists>b. IsPrime n = Inr b)"
  using below_last_threshold IsPrime_returns by blast

text \<open>
  Claim C9. On an even candidate and on 0 and 1, \<^verbatim>\<open>IsPrime\<close> returns false, whatever
  function stands in the place of \<^verbatim>\<open>MillerRabin\<close>: the witness loop is not called.
\<close>

theorem IsPrime_even_or_small:
  "n mod 2 = 0 \<or> n \<le> 1 \<Longrightarrow> IsPrime n = Inr False \<and> IsPrime_with test n = Inr False"
  by (simp add: IsPrime_def IsPrime_with_def)

theorem IsPrime_even_or_small_witness:
  "((10 :: uint32) mod 2 = 0 \<or> (10 :: uint32) \<le> 1)
   \<and> IsPrime 10 = Inr False \<and> IsPrime_with (\<lambda>n g k. Inl NoTermination) 10 = Inr False"
  using IsPrime_even_or_small [of 10 "\<lambda>n g k. Inl NoTermination"] by simp

lemmas IsPrime_eval =
  IsPrime_def IsPrime_with_def MillerRabin_def MillerRabin_factor.simps IsEven_def
  MillerRabin_while.simps MillerRabin_for.simps ModulusPow_def ModulusPow_while.simps
  word_le_nat_alt [of _ 1]

section \<open>The first results of FindLTP\<close>

lemmas FindLTP_eval =
  FindLTP_def FindLTP_while.simps FindLTP_for_i.simps FindLTP_for_u.simps FindLTP_body_def
  FindLTP_round_def FindLTP_round0_def FindLTP_init_def FindLTP_store_def FindLTP_for_v.simps
  Power_def Power_for.simps BUF_LENGTH_def Let_def

text \<open>
  Claim C1, as the code has it: the first results beyond the seeds are
  \<open>FindLTP 5 = 13\<close>, \<open>FindLTP 6 = 17\<close> and \<open>FindLTP 7 = 23\<close>. With the multiplier 10 and
  the leading digit 1 the scan meets 12, 13, 15 and 17 before any candidate that starts with 2.
\<close>

theorem FindLTP_first_results:
  "FindLTP 5 = Inr 13 \<and> FindLTP 6 = Inr 17 \<and> FindLTP 7 = Inr 23"
  by (simp add: FindLTP_eval IsPrime_eval)

theorem FindLTP_first_results_counterexample:
  "FindLTP 5 \<noteq> Inr 23 \<and> FindLTP 6 \<noteq> Inr 29 \<and> FindLTP 7 \<noteq> Inr 31"
  by (simp add: FindLTP_eval IsPrime_eval)

section \<open>What the scan stores\<close>

lemma Power_for_power:
  "Power_for val OldVal n i = val * OldVal ^ (unat n - unat i)"
proof (induction val OldVal n i rule: Power_for.induct)
  case (1 val OldVal n i)
  show ?case
  proof (cases "i < n")
    case False
    then have "unat n - unat i = 0"
      by (simp add: word_less_nat_alt)
    with False show ?thesis
      by (subst Power_for.simps) simp
  next
    case True
    then have lt: "unat i < unat n"
      by (simp add: word_less_nat_alt)
    moreover have "unat n < 256"
      using unsigned_less [of n, where 'a = nat] by simp
    ultimately have "unat (i + 1) = unat i + 1"
      by (simp add: unat_word_ariths)
    with lt have "unat n - unat i = Suc (unat n - unat (i + 1))"
      by simp
    with True "1.IH" show ?thesis
      by (subst Power_for.simps) (simp add: mult.assoc)
  qed
qed

lemma Power_power:
  "Power val n = val ^ unat n"
proof (cases "n = 0")
  case True
  then show ?thesis
    by (simp add: Power_def)
next
  case False
  then have "unat n \<noteq> 0"
    by (simp add: unat_eq_zero)
  then have "unat n = Suc (unat n - unat (1 :: uint8))"
    by simp
  then have "val ^ unat n = val * val ^ (unat n - unat (1 :: uint8))"
    by (metis power_Suc)
  with False show ?thesis
    by (simp add: Power_def Power_for_power)
qed

text \<open>
  The byte that \<^verbatim>\<open>FindLTP\<close> hands to \<^verbatim>\<open>Power\<close> is \<open>order + 1\<close> as long as that fits a
  byte; the \<^verbatim>\<open>while\<close> loop keeps \<open>order\<close> at 9 or less.
\<close>

lemma Power_order:
  fixes ord :: uint16
  assumes "ord \<le> 9"
  shows "Power 10 (ucast (ord + 1)) = 10 ^ (unat ord + 1)"
proof -
  from assms have le: "unat ord \<le> 9"
    by (simp add: word_le_nat_alt)
  then have "unat (ord + 1) = unat ord + 1"
    by (simp add: unat_word_ariths)
  moreover from le have "take_bit 8 (unat ord + 1) = unat ord + 1"
    by (simp add: take_bit_nat_eq_self_iff)
  ultimately have "unat (ucast (ord + 1) :: uint8) = unat ord + 1"
    by (simp add: unsigned_ucast_eq)
  then show ?thesis
    by (simp add: Power_power)
qed

lemma FindLTP_round_order:
  "order rd < 9 \<Longrightarrow> order (FindLTP_round rd st) \<le> 9"
proof -
  assume "order rd < 9"
  then have "unat (order rd) < 9"
    by (simp add: word_less_nat_alt)
  then have "unat (order rd + 1) \<le> 9"
    by (simp add: unat_word_ariths)
  then show ?thesis
    by (simp add: FindLTP_round_def word_le_nat_alt)
qed

text \<open>
  When the loop over \<open>v\<close> is left with \<open>v < 10\<close>, the candidate with that leading digit
  was accepted.
\<close>

lemma FindLTP_for_v_accepts:
  "FindLTP_for_v num PwValN v0 = Inr v \<Longrightarrow> v < 10 \<Longrightarrow>
   v0 \<le> v \<and> IsPrime (num + PwValN * ucast v) = Inr True"
proof (induction num PwValN v0 rule: FindLTP_for_v.induct)
  case (1 num PwValN v0)
  show ?case
  proof (cases "v0 < 10")
    case False
    with "1.prems" show ?thesis
      by (subst (asm) FindLTP_for_v.simps) simp
  next
    case True
    then have lt: "unat v0 < 10"
      by (simp add: word_less_nat_alt)
    then have "unat (v0 + 1) = unat v0 + 1"
      by (simp add: unat_word_ariths)
    then have up: "v0 \<le> v0 + 1"
      by (simp add: word_le_nat_alt)
    from "1.prems"(1) True obtain p where p: "IsPrime (num + PwValN * ucast v0) = Inr p"
      and rest: "(if p then Inr v0 else FindLTP_for_v num PwValN (v0 + 1)) = Inr v"
      by (subst (asm) FindLTP_for_v.simps) (auto split: sum.splits)
    show ?thesis
    proof (cases p)
      case True
      with p rest show ?thesis
        by simp
    next
      case False
      with rest have "FindLTP_for_v num PwValN (v0 + 1) = Inr v"
        by simp
      with "1.IH" [OF True p False] "1.prems"(2)
      have "v0 + 1 \<le> v \<and> IsPrime (num + PwValN * ucast v) = Inr True"
        by simp
      with up show ?thesis
        by auto
    qed
  qed
qed

text \<open>
  The candidate of the loop over \<open>v\<close> is the stored value with the digit \<open>v\<close> put before
  it, taken in 32 bits as the parameter of \<^verbatim>\<open>IsPrime\<close> takes it.
\<close>

lemma prepended_candidate:
  fixes num :: uint32 and v :: uint16
  shows "num + 10 ^ k * ucast v = of_nat (unat num + unat v * 10 ^ k)"
proof -
  have "(ucast v :: uint32) = of_nat (unat v)"
    by simp
  then show ?thesis
    by (simp add: mult.commute)
qed

text \<open>
  A turn of the scan that goes on either leaves the buffer and the write cursor as they
  are, or stores one value \<open>num\<close> at the write cursor; and then there is a digit \<open>v\<close> from
  1 to 9 for which \<^verbatim>\<open>IsPrime\<close> accepted the 32-bit sum of \<open>num\<close> and \<open>v * 10 ^ (order + 1)\<close>.
  That sum is the value with \<open>v\<close> put before \<open>num\<close> only while that value is below
  \<open>2 ^ 32\<close>; beyond, it is the value less a multiple of \<open>2 ^ 32\<close>.
\<close>

lemma FindLTP_body_store_accepted:
  assumes "order rd \<le> 9"
    and "FindLTP_body LTP_n rd st i u = Inr (Continue (st', u'))"
  shows "(LTP_Buf st' = LTP_Buf st \<and> LTP_IndexFree st' = LTP_IndexFree st)
    \<or> (\<exists>num. LTP_Buf st' = (LTP_Buf st)[unat (LTP_IndexFree st) := num]
          \<and> LTP_IndexFree st' \<noteq> LTP_IndexFree st
          \<and> (\<exists>v\<in>{1..9}. IsPrime (of_nat (unat num + v * 10 ^ (unat (order rd) + 1))) = Inr True))"
proof -
  define num where "num = LTP_Buf st ! unat u + ucast i * PwVal rd"
  define PwValN where "PwValN = Power 10 (ucast (order rd + 1))"
  have pw: "PwValN = 10 ^ (unat (order rd) + 1)"
    unfolding PwValN_def using assms(1) by (rule Power_order)
  consider (same) "st' = st" | (count) "st' = st\<lparr>PrimesCount := PrimesCount st + 1\<rparr>"
    | (store) v where "FindLTP_for_v num PwValN 1 = Inr v" "v < 10"
        "st' = FindLTP_store (st\<lparr>PrimesCount := PrimesCount st + 1\<rparr>) num"
    using assms(2) unfolding FindLTP_body_def Let_def num_def [symmetric] PwValN_def [symmetric]
    by (auto split: if_splits sum.splits)
  then show ?thesis
  proof cases
    case same
    then show ?thesis
      by simp
  next
    case count
    then show ?thesis
      by simp
  next
    case (store v)
    from store(1,2) have v1: "1 \<le> v" and acc: "IsPrime (num + PwValN * ucast v) = Inr True"
      using FindLTP_for_v_accepts by blast+
    from v1 store(2) have "1 \<le> unat v" "unat v \<le> 9"
      by (simp_all add: word_le_nat_alt word_less_nat_alt)
    then have v: "unat v \<in> {1..9}"
      by simp
    from acc have "IsPrime (of_nat (unat num + unat v * 10 ^ (unat (order rd) + 1))) = Inr True"
      unfolding pw prepended_candidate .
    with v have ext: "\<exists>v\<in>{1..9}. IsPrime (of_nat (unat num + v * 10 ^ (unat (order rd) + 1))) = Inr True"
      by blast
    have buf: "LTP_Buf st' = (LTP_Buf st)[unat (LTP_IndexFree st) := num]"
      using store(3) by (simp add: FindLTP_store_def)
    have "LTP_IndexFree st' = (if LTP_IndexFree st + 1 \<ge> 680 then 0 else LTP_IndexFree st + 1)"
      using store(3) by (simp add: FindLTP_store_def)
    moreover have "LTP_IndexFree st + 1 \<noteq> LTP_IndexFree st"
      by simp
    moreover have "LTP_IndexFree st + 1 \<ge> 680 \<Longrightarrow> LTP_IndexFree st \<noteq> 0"
      by (auto simp: word_le_nat_alt)
    ultimately have "LTP_IndexFree st' \<noteq> LTP_IndexFree st"
      by (auto split: if_splits)
    with buf ext show ?thesis
      by blast
  qed
qed

section \<open>MillerRabin on words and on naturals\<close>

text \<open>
  Loop by loop, the functions on words return what the functions on naturals return,
  as long as the modulus has at most 32 bits, which \<^verbatim>\<open>IsPrime\<close> guarantees.
\<close>

lemma IsEven_even: "IsEven d \<longleftrightarrow> even (unat d)"
proof -
  have "d mod 2 = 0 \<longleftrightarrow> unat (d mod 2) = 0"
    by (simp add: unat_eq_zero)
  then show ?thesis
    by (simp add: IsEven_def unat_mod_distrib even_iff_mod_2_eq_zero)
qed

lemma MillerRabin_factor_nat:
  "d \<noteq> 0 \<Longrightarrow> unat d * 2 ^ unat s < 2 ^ 32 \<Longrightarrow>
   \<exists>d' s'. MillerRabin_factor d s = Some (d', s') \<and> factor_nat (unat d) (unat s) = (unat d', unat s')"
proof (induction "unat d" arbitrary: d s rule: less_induct)
  case less
  from less.prems(1) have pos: "0 < unat d"
    by (simp add: unat_gt_0)
  show ?case
  proof (cases "IsEven d")
    case False
    then have "MillerRabin_factor d s = Some (d, s)"
      by (subst MillerRabin_factor.simps) simp
    moreover from False have "factor_nat (unat d) (unat s) = (unat d, unat s)"
      by (subst factor_nat.simps) (simp add: IsEven_even)
    ultimately show ?thesis
      by blast
  next
    case True
    then have ev: "even (unat d)"
      by (simp add: IsEven_even)
    with pos have half: "unat d div 2 \<noteq> 0" "unat d div 2 < unat d" "unat d div 2 * 2 = unat d"
      by presburger+
    have ne: "drop_bit 1 d \<noteq> 0"
      using half(1) by (metis unat_half unat_eq_zero)
    have "(2::nat) ^ unat s \<le> unat d * 2 ^ unat s"
      using pos by simp
    from this less.prems(2) have p2: "(2::nat) ^ unat s < 2 ^ 32"
      by (rule le_less_trans)
    have "unat s < 32"
      by (rule power_less_imp_less_exp [of 2]) (simp, fact p2)
    then have s1: "unat (s + 1) = unat s + 1"
      by (simp add: unat_word_ariths)
    have "unat (drop_bit 1 d) * 2 ^ unat (s + 1) = unat d * 2 ^ unat s"
      unfolding unat_half s1 using half(3) by (simp add: mult.assoc [symmetric])
    with less.prems(2) have inv: "unat (drop_bit 1 d) * 2 ^ unat (s + 1) < 2 ^ 32"
      by simp
    have "unat (drop_bit 1 d) < unat d"
      unfolding unat_half by (rule half(2))
    from less.hyps [OF this ne inv]
    obtain d' s' where r: "MillerRabin_factor (drop_bit 1 d) (s + 1) = Some (d', s')"
      and f: "factor_nat (unat (drop_bit 1 d)) (unat (s + 1)) = (unat d', unat s')"
      by blast
    from True r have "MillerRabin_factor d s = Some (d', s')"
      by (subst MillerRabin_factor.simps) simp
    moreover from f have "factor_nat (unat d div 2) (unat s + 1) = (unat d', unat s')"
      unfolding unat_half s1 .
    with ev pos have "factor_nat (unat d) (unat s) = (unat d', unat s')"
      by (subst factor_nat.simps) simp
    ultimately show ?thesis
      by blast
  qed
qed

lemma word_eq_one_iff:
  fixes y :: "'a::len word"
  shows "y = 1 \<longleftrightarrow> unat y = 1"
  by (simp add: word_unat_eq_iff)

lemma word_eq_pred_iff:
  fixes y n :: "'a::len word"
  assumes "n \<noteq> 0"
  shows "y = n - 1 \<longleftrightarrow> unat y = unat n - 1"
  using assms by (simp add: word_unat_eq_iff unat_minus_one)

lemma MillerRabin_for_nat:
  "n \<noteq> 0 \<Longrightarrow> unat n \<le> 2 ^ 32 \<Longrightarrow>
   map_option unat (MillerRabin_for n x s i) = for_nat (unat n) (unat x) (unat s) (unat i)"
proof (induction n x s i rule: MillerRabin_for.induct)
  case (1 n x s i)
  let ?y = "((x mod n) * (x mod n)) mod n"
  have y: "unat ?y = unat x * unat x mod unat n"
    using "1.prems" by (rule unat_modmul)
  show ?case
  proof (cases "i < s")
    case False
    then have "\<not> unat i < unat s"
      by (simp add: word_less_nat_alt)
    with False show ?thesis
      by (subst MillerRabin_for.simps, subst for_nat.simps) simp
  next
    case True
    then have lt: "unat i < unat s"
      by (simp add: word_less_nat_alt)
    moreover have "unat s < 65536"
      using unsigned_less [of s, where 'a = nat] by simp
    ultimately have i1: "unat (i + 1) = unat i + 1"
      by (simp add: unat_word_ariths)
    have one: "?y = 1 \<longleftrightarrow> unat x * unat x mod unat n = 1"
      unfolding word_eq_one_iff y ..
    have pred: "?y = n - 1 \<longleftrightarrow> unat x * unat x mod unat n = unat n - 1"
      unfolding word_eq_pred_iff [OF "1.prems"(1)] y ..
    have ih: "?y \<noteq> 1 \<Longrightarrow> ?y \<noteq> n - 1 \<Longrightarrow>
        map_option unat (MillerRabin_for n ?y s (i + 1))
          = for_nat (unat n) (unat x * unat x mod unat n) (unat s) (unat i + 1)"
      using "1.IH" [OF True _ _ "1.prems"] unfolding y i1 by simp
    show ?thesis
      using True lt one pred ih
      by (subst MillerRabin_for.simps, subst for_nat.simps) simp
  qed
qed

lemma unat_of_nat_small:
  fixes m :: uint64
  assumes "unat m \<le> 2 ^ 32" and "0 < unat m"
  shows "unat (of_nat (a mod unat m) :: uint64) = a mod unat m"
proof -
  have "a mod unat m < unat m"
    using assms(2) by simp
  with assms(1) have "a mod unat m < 2 ^ 64"
    by simp
  then show ?thesis
    by (simp add: unat_of_nat take_bit_nat_eq_self_iff)
qed

lemma MillerRabin_while_nat:
  "1 < unat n \<Longrightarrow> unat n \<le> 2 ^ 32 \<Longrightarrow> unat k \<le> length g \<Longrightarrow>
   MillerRabin_while n g k d s
     = Inr (while_nat (unat n) (map unat (rev (take (unat k) g))) (unat d) (unat s))"
proof (induction n g k d s rule: MillerRabin_while.induct)
  case (1 n g k d s)
  from "1.prems"(1) have n0: "n \<noteq> 0"
    by (metis unat_eq_zero not_less_zero unat_0)
  show ?case
  proof (cases "k = 0")
    case True
    then show ?thesis
      by (subst MillerRabin_while.simps) simp
  next
    case False
    then have k0: "unat k \<noteq> 0"
      by (simp add: unat_eq_zero)
    then have k1: "unat (k - 1) = unat k - 1"
      using False by (simp add: unat_minus_one)
    with k0 "1.prems"(3) have inb: "\<not> length g \<le> unat (k - 1)" and le: "unat (k - 1) \<le> length g"
      and lt: "unat (k - 1) < length g" and suc: "unat k = Suc (unat (k - 1))"
      by simp_all
    let ?gi = "g ! unat (k - 1)"
    let ?p = "unat ?gi ^ unat d mod unat n"
    have gs: "map unat (rev (take (unat k) g)) = unat ?gi # map unat (rev (take (unat (k - 1)) g))"
      unfolding suc using lt by (simp add: take_Suc_conv_app_nth)
    have "unat (ucast d :: uint64) = unat d" "unat (ucast ?gi :: uint64) = unat ?gi"
      by (rule unat_ucast_32_64)+
    then have mp: "ModulusPow (ucast ?gi) (ucast d) n = Inr (of_nat ?p)"
      using n0 "1.prems"(1,2) by (simp add: ModulusPow_nat)
    have up: "unat (of_nat ?p :: uint64) = ?p"
      using "1.prems"(1,2) by (intro unat_of_nat_small) simp_all
    have one: "(of_nat ?p :: uint64) = 1 \<longleftrightarrow> ?p = 1"
      unfolding word_eq_one_iff up ..
    have pred: "(of_nat ?p :: uint64) = n - 1 \<longleftrightarrow> ?p = unat n - 1"
      unfolding word_eq_pred_iff [OF n0] up ..
    have loop: "map_option unat (MillerRabin_for n (of_nat ?p) s 1) = for_nat (unat n) ?p (unat s) 1"
      using MillerRabin_for_nat [OF n0 "1.prems"(2), of "of_nat ?p" s 1] unfolding up by simp
    have ih1: "(of_nat ?p :: uint64) = 1 \<or> (of_nat ?p :: uint64) = n - 1 \<Longrightarrow>
        MillerRabin_while n g (k - 1) d s
          = Inr (while_nat (unat n) (map unat (rev (take (unat (k - 1)) g))) (unat d) (unat s))"
      using "1.IH"(1) [OF False inb mp _ "1.prems"(1,2) le] by simp
    have ih2: "\<not> ((of_nat ?p :: uint64) = 1 \<or> (of_nat ?p :: uint64) = n - 1) \<Longrightarrow>
        MillerRabin_for n (of_nat ?p) s 1 = Some i \<Longrightarrow> i \<noteq> s \<Longrightarrow>
        MillerRabin_while n g (k - 1) d s
          = Inr (while_nat (unat n) (map unat (rev (take (unat (k - 1)) g))) (unat d) (unat s))" for i
      using "1.IH"(2) [OF False inb mp _ _ _ "1.prems"(1,2) le] by simp
    show ?thesis
    proof (cases "(of_nat ?p :: uint64) = 1 \<or> (of_nat ?p :: uint64) = n - 1")
      case True
      with ih1 have "MillerRabin_while n g k d s
          = Inr (while_nat (unat n) (map unat (rev (take (unat (k - 1)) g))) (unat d) (unat s))"
        using False inb mp by (subst MillerRabin_while.simps) simp
      moreover from True have "?p = 1 \<or> ?p = unat n - 1"
        using one pred by simp
      ultimately show ?thesis
        unfolding gs by simp
    next
      case neither: False
      then have nn: "\<not> (?p = 1 \<or> ?p = unat n - 1)"
        using one pred by simp
      show ?thesis
      proof (cases "MillerRabin_for n (of_nat ?p) s 1")
        case None
        with loop have "for_nat (unat n) ?p (unat s) 1 = None"
          by simp
        with nn have "while_nat (unat n) (map unat (rev (take (unat k) g))) (unat d) (unat s) = False"
          unfolding gs by simp
        moreover from None neither have "MillerRabin_while n g k d s = Inr False"
          using False inb mp by (subst MillerRabin_while.simps) simp
        ultimately show ?thesis
          by simp
      next
        case (Some i)
        with loop have fn: "for_nat (unat n) ?p (unat s) 1 = Some (unat i)"
          by simp
        have eqs: "i = s \<longleftrightarrow> unat i = unat s"
          by (rule word_unat_eq_iff)
        show ?thesis
        proof (cases "i = s")
          case True
          with Some neither have "MillerRabin_while n g k d s = Inr False"
            using False inb mp by (subst MillerRabin_while.simps) simp
          moreover from True fn nn
          have "while_nat (unat n) (map unat (rev (take (unat k) g))) (unat d) (unat s) = False"
            unfolding gs by simp
          ultimately show ?thesis
            by simp
        next
          case ne: False
          with Some neither have "MillerRabin_while n g k d s = MillerRabin_while n g (k - 1) d s"
            using False inb mp by (subst MillerRabin_while.simps) simp
          also have "\<dots> = Inr (while_nat (unat n) (map unat (rev (take (unat (k - 1)) g))) (unat d) (unat s))"
            using ih2 [OF neither Some ne] .
          also from ne eqs fn nn
          have "while_nat (unat n) (map unat (rev (take (unat (k - 1)) g))) (unat d) (unat s)
            = while_nat (unat n) (map unat (rev (take (unat k) g))) (unat d) (unat s)"
            unfolding gs by simp
          finally show ?thesis .
        qed
      qed
    qed
  qed
qed

lemma MillerRabin_nat_eq:
  fixes w :: uint32
  assumes "1 < unat w" and "unat k \<le> length g"
  shows "MillerRabin (ucast w) g k = Inr (MillerRabin_nat (unat w) (map unat (rev (take (unat k) g))))"
proof -
  have un: "unat (ucast w :: uint64) = unat w"
    by (rule unat_ucast_32_64)
  have m1: "unat (ucast w - 1 :: uint64) = unat w - 1"
    using assms(1) un by (simp add: unat_sub word_le_nat_alt)
  have "unat w - 1 < 2 ^ 32"
    using unsigned_less [of w, where 'a = nat] by simp
  then have "take_bit 32 (unat w - 1) = unat w - 1"
    by (simp only: take_bit_nat_eq_self_iff)
  with m1 have c: "unat (ucast (ucast w - 1 :: uint64) :: uint32) = unat w - 1"
    by (simp add: unsigned_ucast_eq)
  with assms(1) have "(ucast (ucast w - 1 :: uint64) :: uint32) \<noteq> 0"
    by (metis unat_eq_zero zero_less_diff less_numeral_extra(3))
  moreover have "unat (ucast (ucast w - 1 :: uint64) :: uint32) * 2 ^ unat (0 :: uint16) < 2 ^ 32"
    using unsigned_less [of "ucast (ucast w - 1 :: uint64) :: uint32", where 'a = nat] by simp
  ultimately obtain d s where r: "MillerRabin_factor (ucast (ucast w - 1 :: uint64)) 0 = Some (d, s)"
    and f: "factor_nat (unat (ucast (ucast w - 1 :: uint64) :: uint32)) (unat (0 :: uint16)) = (unat d, unat s)"
    using MillerRabin_factor_nat by blast
  from f have f': "factor_nat (unat w - 1) 0 = (unat d, unat s)"
    unfolding c by simp
  have "unat (ucast w :: uint64) \<le> 2 ^ 32"
    unfolding un using unsigned_less [of w, where 'a = nat] by simp
  with assms have "MillerRabin_while (ucast w) g k d s
      = Inr (while_nat (unat w) (map unat (rev (take (unat k) g))) (unat d) (unat s))"
    using MillerRabin_while_nat [of "ucast w" k g d s] unfolding un by simp
  with r f' show ?thesis
    by (simp add: MillerRabin_def MillerRabin_nat_def)
qed

lemma IsPrime_nat:
  assumes "odd n" and "3 \<le> n" and "n < 1373653"
  shows "IsPrime (of_nat n) = Inr (MillerRabin_nat n (if n < 2047 then [2] else [3, 2]))"
proof -
  let ?w = "of_nat n :: uint32"
  from assms(3) have "n < 2 ^ 32"
    by simp
  then have un: "unat ?w = n"
    by (simp add: unat_of_nat take_bit_nat_eq_self_iff)
  have "unat (?w mod 2) = n mod 2"
    by (simp add: unat_mod_distrib un)
  with assms(1) have "unat (?w mod 2) \<noteq> 0"
    by (simp add: odd_iff_mod_2_eq_one)
  then have odd: "?w mod 2 \<noteq> 0"
    by (metis unat_0)
  from assms(2) have big: "\<not> ?w \<le> 1" and gt: "1 < unat ?w"
    by (simp_all add: word_le_nat_alt un)
  have lt1: "?w < 2047 \<longleftrightarrow> n < 2047"
    by (simp add: word_less_nat_alt un)
  have lt2: "?w < 1373653"
    using assms(3) by (simp add: word_less_nat_alt un)
  have a: "MillerRabin (ucast ?w) [2] 1 = Inr (MillerRabin_nat n [2])"
    using MillerRabin_nat_eq [OF gt, of 1 "[2]"] by (simp add: un)
  have b: "MillerRabin (ucast ?w) [2, 3] 2 = Inr (MillerRabin_nat n [3, 2])"
    using MillerRabin_nat_eq [OF gt, of 2 "[2, 3]"] by (simp add: un)
  show ?thesis
    using odd big lt1 lt2 a b by (simp add: IsPrime_def IsPrime_with_def)
qed

section \<open>The oracle decides primality\<close>

lemma trial_division_from_iff:
  "trial_division_from n d \<longleftrightarrow> (\<forall>e. d \<le> e \<and> e * e \<le> n \<longrightarrow> n mod e \<noteq> 0)"
proof (induction n d rule: trial_division_from.induct)
  case (1 n d)
  show ?case
  proof (cases "n < d * d")
    case True
    have "n < e * e" if "d \<le> e" for e
    proof -
      from that that have "d * d \<le> e * e"
        by (rule mult_le_mono)
      with True show ?thesis
        by simp
    qed
    then have "\<forall>e. d \<le> e \<and> e * e \<le> n \<longrightarrow> n mod e \<noteq> 0"
      by (meson not_less)
    with True show ?thesis
      by (subst trial_division_from.simps) simp
  next
    case False
    show ?thesis
    proof (cases "n mod d = 0")
      case True
      with False have "\<not> (\<forall>e. d \<le> e \<and> e * e \<le> n \<longrightarrow> n mod e \<noteq> 0)"
        by (metis not_less order_refl)
      with False True show ?thesis
        by (subst trial_division_from.simps) simp
    next
      case nd: False
      have "(\<forall>e. d \<le> e \<and> e * e \<le> n \<longrightarrow> n mod e \<noteq> 0)
          \<longleftrightarrow> (\<forall>e. d + 1 \<le> e \<and> e * e \<le> n \<longrightarrow> n mod e \<noteq> 0)"
        using nd by (metis Suc_eq_plus1 Suc_leI le_neq_implies_less add_leD1 order_refl le_trans le_add1)
      with False nd "1.IH" show ?thesis
        by (subst trial_division_from.simps) simp
    qed
  qed
qed

text \<open>
  The oracle is primality: \<open>n\<close> is greater than 1 and has no divisor but 1 and itself.
\<close>

lemma trial_division_prime_iff:
  "trial_division_prime n \<longleftrightarrow> 1 < n \<and> (\<forall>d. d dvd n \<longrightarrow> d = 1 \<or> d = n)"
proof (cases "1 < n")
  case False
  then show ?thesis
    by (simp add: trial_division_prime_def)
next
  case True
  have "(\<forall>e. 2 \<le> e \<and> e * e \<le> n \<longrightarrow> n mod e \<noteq> 0) \<longleftrightarrow> (\<forall>d. d dvd n \<longrightarrow> d = 1 \<or> d = n)"
  proof
    assume small: "\<forall>e. 2 \<le> e \<and> e * e \<le> n \<longrightarrow> n mod e \<noteq> 0"
    show "\<forall>d. d dvd n \<longrightarrow> d = 1 \<or> d = n"
    proof (intro allI impI)
      fix d
      assume "d dvd n"
      then obtain q where n: "n = d * q"
        by (auto simp: dvd_def)
      show "d = 1 \<or> d = n"
      proof (rule ccontr)
        assume "\<not> (d = 1 \<or> d = n)"
        with n True have d2: "2 \<le> d" and q2: "2 \<le> q"
          by (cases d; cases q; auto)+
        show False
        proof (cases "d \<le> q")
          case True
          then have "d * d \<le> n"
            unfolding n by simp
          with d2 small have "n mod d \<noteq> 0"
            by blast
          then show False
            unfolding n by simp
        next
          case False
          then have "q * q \<le> n"
            unfolding n by simp
          with q2 small have "n mod q \<noteq> 0"
            by blast
          then show False
            unfolding n by simp
        qed
      qed
    qed
  next
    assume prime: "\<forall>d. d dvd n \<longrightarrow> d = 1 \<or> d = n"
    show "\<forall>e. 2 \<le> e \<and> e * e \<le> n \<longrightarrow> n mod e \<noteq> 0"
    proof (intro allI impI notI)
      fix e
      assume e: "2 \<le> e \<and> e * e \<le> n" and "n mod e = 0"
      then have "e dvd n"
        by (simp add: dvd_eq_mod_eq_0)
      with prime have "e = 1 \<or> e = n"
        by blast
      with e have "n * n \<le> n"
        by auto
      with True show False
        by simp
    qed
  qed
  with True show ?thesis
    by (simp add: trial_division_prime_def trial_division_from_iff)
qed

section \<open>Rules of evaluation\<close>

lemma dm_eq_mod: "dm x n = x mod n"
proof (induction x n rule: dm.induct)
  case (1 x n)
  show ?case
  proof (cases "n = 0 \<or> x < n")
    case True
    then show ?thesis
      by (subst dm.simps) auto
  next
    case False
    then have ih: "dm x (2 * n) = x mod (2 * n)"
      using "1.IH" by simp
    from False have lt: "x mod (2 * n) < 2 * n"
      by simp
    have "sub_if (x mod (2 * n)) n = (x mod (2 * n)) mod n"
    proof (cases "x mod (2 * n) < n")
      case True
      then show ?thesis
        by (simp add: sub_if_def)
    next
      case False
      then have "n \<le> x mod (2 * n)"
        by simp
      then have "(x mod (2 * n)) mod n = (x mod (2 * n) - n) mod n"
        by (rule le_mod_geq)
      also from lt have "\<dots> = x mod (2 * n) - n"
        by simp
      finally show ?thesis
        using False by (simp add: sub_if_def)
    qed
    also have "\<dots> = x mod n"
      by (simp add: mod_mod_cancel)
    finally show ?thesis
      using False ih by (subst dm.simps) simp
  qed
qed

lemma e_dm: "dm x n = (if x < n then x else sub_if (dm x (2 * n)) n)"
  by (subst dm.simps) (auto simp: sub_if_def dm_eq_mod)

lemma e_sub_if: "sub_if r n = (if r < n then r else r - n)"
  by (simp add: sub_if_def)

lemma e_double: "2 * numeral k = (numeral (Num.Bit0 k) :: nat)"
  by (simp add: numeral_Bit0)

lemma e_sqm: "sqm x n = dm (x * x) n"
  by (simp add: sqm_def dm_eq_mod)

lemma e_pow_One: "powmod g 1 n = dm g n"
  by (simp add: powmod_def dm_eq_mod)

lemma power_double_mod:
  fixes g m n :: nat
  shows "g ^ (2 * m) mod n = (g ^ m mod n) * (g ^ m mod n) mod n"
proof -
  have "g ^ (2 * m) = g ^ m * g ^ m"
    by (simp add: power_add mult_2)
  then show ?thesis
    by (simp only: mod_mult_eq)
qed

lemma e_pow_Bit0: "powmod g (numeral (Num.Bit0 k)) n = sqm (powmod g (numeral k) n) n"
proof -
  have "(numeral (Num.Bit0 k) :: nat) = 2 * numeral k"
    by (simp add: numeral_Bit0)
  then show ?thesis
    by (simp only: powmod_def sqm_def power_double_mod)
qed

lemma e_pow_Bit1: "powmod g (numeral (Num.Bit1 k)) n = dm (g * sqm (powmod g (numeral k) n) n) n"
proof -
  have "(numeral (Num.Bit1 k) :: nat) = Suc (2 * numeral k)"
    by (simp add: numeral_Bit1)
  then have "g ^ numeral (Num.Bit1 k) mod n = g * g ^ (2 * numeral k) mod n"
    by (simp only: power_Suc)
  also have "\<dots> = g * (g ^ (2 * numeral k) mod n) mod n"
    by (simp only: mod_mult_right_eq)
  finally show ?thesis
    by (simp only: powmod_def sqm_def dm_eq_mod power_double_mod)
qed

lemma e_for: "for_nat n x s i = (if i < s then for_step n (sqm x n) s i else Some i)"
  by (subst for_nat.simps) (simp add: for_step_def sqm_def)

lemma e_for_step:
  "for_step n y s i = (if y = 1 then None else if y = n - 1 then Some i else for_nat n y s (i + 1))"
  by (simp add: for_step_def)

lemma e_while: "while_nat n (g # gs) d s = while_step n gs d s (powmod g d n)"
  by (simp add: while_step_def powmod_def after_for_def)

lemma e_while_step:
  "while_step n gs d s x =
     (if x = 1 then while_nat n gs d s
      else if x = n - 1 then while_nat n gs d s
      else after_for (for_nat n x s 1) s (while_nat n gs d s))"
  by (simp add: while_step_def)

lemma e_after_None: "after_for None s rest = False"
  by (simp add: after_for_def)

lemma e_after_Some: "after_for (Some i) s rest = (if i = s then False else rest)"
  by (simp add: after_for_def)

lemma e_factor_Bit0: "factor_nat (numeral (Num.Bit0 k)) s = factor_nat (numeral k) (s + 1)"
  by (subst factor_nat.simps) simp

lemma e_factor_Bit1: "factor_nat (numeral (Num.Bit1 k)) s = (numeral (Num.Bit1 k), s)"
  by (subst factor_nat.simps) simp

lemma e_factor_One: "factor_nat 1 s = (1, s)"
  by (subst factor_nat.simps) simp

lemma e_MillerRabin: "MillerRabin_nat n gs = MillerRabin_run n gs (factor_nat (n - 1) 0)"
  by (simp add: MillerRabin_nat_def MillerRabin_run_def split: prod.splits)

lemma e_run: "MillerRabin_run n gs (d, s) = while_nat n gs d s"
  by (simp add: MillerRabin_run_def)

lemma e_pred: "numeral (Num.Bit1 k) - (1::nat) = numeral (Num.Bit0 k)"
  by simp

lemma e_nat_1: "nat 1 = 1"
  by simp

lemma e_no_factor:
  "no_factor_in n (p # ps) = (if n < p * p then True else factor_step n (dm n p) ps)"
  by (simp add: factor_step_def dm_eq_mod)

lemma e_factor_step: "factor_step n r ps = (if r = 0 then False else no_factor_in n ps)"
  by (simp add: factor_step_def)

lemma e_agree_run: "agree_run n (numeral k) = (agree n \<and> agree_run (n + 2) (pred_numeral k))"
  by (simp add: numeral_eq_Suc)

lemma e_agree_run_1: "agree_run n 1 = agree n"
  by simp

lemmas eval_rules =
  agree_def small_primes_def e_agree_run e_agree_run_1 agree_run.simps(1)
  e_MillerRabin e_run e_factor_Bit0 e_factor_Bit1 e_factor_One e_pred
  while_nat.simps(1) e_while e_while_step e_after_None e_after_Some e_for e_for_step
  e_pow_One e_pow_Bit0 e_pow_Bit1 e_sqm e_dm e_sub_if e_double
  no_factor_in.simps(1) e_no_factor e_factor_step
  e_nat_1 numeral_One one_add_one numeral_plus_one one_plus_numeral diff_zero
  mult_1 mult_1_right mult_0 mult_0_right diff_0_eq_0 diff_self_eq_0
  arith_simps rel_simps pred_numeral_simps diff_nat_numeral nat_numeral nat_0
  if_True if_False option.simps simp_thms

section \<open>Trial division by the small primes\<close>

lemma no_factor_in_iff:
  "sorted ps \<Longrightarrow> no_factor_in n ps \<longleftrightarrow> (\<forall>p\<in>set ps. p * p \<le> n \<longrightarrow> n mod p \<noteq> 0)"
proof (induction ps)
  case Nil
  then show ?case
    by simp
next
  case (Cons p ps)
  then have ih: "no_factor_in n ps \<longleftrightarrow> (\<forall>q\<in>set ps. q * q \<le> n \<longrightarrow> n mod q \<noteq> 0)"
    and le: "\<forall>q\<in>set ps. p \<le> q"
    by simp_all
  show ?case
  proof (cases "n < p * p")
    case True
    have "n < q * q" if "q \<in> set ps" for q
    proof -
      from that le have "p \<le> q"
        by blast
      then have "p * p \<le> q * q"
        by (simp add: mult_le_mono)
      with True show ?thesis
        by simp
    qed
    then have "\<forall>q\<in>set ps. \<not> q * q \<le> n"
      by (simp add: not_le)
    with True show ?thesis
      by simp
  next
    case False
    with ih show ?thesis
      by auto
  qed
qed

lemma small_primes_cover:
  "\<forall>e\<in>{2..100}. \<exists>p\<in>set small_primes. p \<noteq> 1 \<and> e mod p = 0"
proof -
  have "{2..100::nat} = set [2..<Suc 100]"
    by (rule atLeastAtMost_upt)
  then show ?thesis
    by (simp add: small_primes_def upt_rec)
qed

lemma small_primes_ge_2: "\<forall>p\<in>set small_primes. 2 \<le> p"
  by (simp add: small_primes_def)

lemma small_primes_sorted: "sorted small_primes"
  by (simp add: small_primes_def)

lemma trial_division_small_primes:
  assumes "n < 10201"
  shows "trial_division_from n 2 \<longleftrightarrow> no_factor_in n small_primes"
proof -
  have "(\<forall>e. 2 \<le> e \<and> e * e \<le> n \<longrightarrow> n mod e \<noteq> 0)
      \<longleftrightarrow> (\<forall>p\<in>set small_primes. p * p \<le> n \<longrightarrow> n mod p \<noteq> 0)"
  proof
    assume all: "\<forall>e. 2 \<le> e \<and> e * e \<le> n \<longrightarrow> n mod e \<noteq> 0"
    show "\<forall>p\<in>set small_primes. p * p \<le> n \<longrightarrow> n mod p \<noteq> 0"
    proof (intro ballI impI)
      fix p
      assume mem: "p \<in> set small_primes" and pp: "p * p \<le> n"
      from small_primes_ge_2 mem have "2 \<le> p"
        by (rule bspec)
      with pp have "2 \<le> p \<and> p * p \<le> n"
        by (rule conjI [rotated])
      moreover from all have "2 \<le> p \<and> p * p \<le> n \<longrightarrow> n mod p \<noteq> 0"
        by (rule spec)
      ultimately show "n mod p \<noteq> 0"
        by (rule mp [rotated])
    qed
  next
    assume primes: "\<forall>p\<in>set small_primes. p * p \<le> n \<longrightarrow> n mod p \<noteq> 0"
    show "\<forall>e. 2 \<le> e \<and> e * e \<le> n \<longrightarrow> n mod e \<noteq> 0"
    proof (intro allI impI notI)
      fix e
      assume e: "2 \<le> e \<and> e * e \<le> n" and dv: "n mod e = 0"
      from e have e2: "2 \<le> e"
        by (rule conjunct1)
      from e have ee: "e * e \<le> n"
        by (rule conjunct2)
      have "e \<le> 100"
      proof (rule ccontr)
        assume "\<not> e \<le> 100"
        then have big: "101 \<le> e"
          by simp
        have "101 * 101 \<le> e * e"
          using big big by (rule mult_le_mono)
        from this ee have "101 * 101 \<le> n"
          by (rule le_trans)
        with assms show False
          by simp
      qed
      with e2 have "e \<in> {2..100}"
        by (simp only: atLeastAtMost_iff simp_thms)
      with small_primes_cover have "\<exists>p\<in>set small_primes. p \<noteq> 1 \<and> e mod p = 0"
        by (rule bspec)
      then obtain p where p: "p \<in> set small_primes" "e mod p = 0"
        by (elim bexE conjE)
      from p(2) have pd: "p dvd e"
        by (simp only: dvd_eq_mod_eq_0)
      from e2 have "0 < e"
        by (rule less_le_trans [rotated]) simp
      with pd have pe: "p \<le> e"
        by (rule dvd_imp_le)
      have "p * p \<le> e * e"
        using pe pe by (rule mult_le_mono)
      from this ee have pp: "p * p \<le> n"
        by (rule le_trans)
      from dv have "e dvd n"
        by (simp only: dvd_eq_mod_eq_0)
      with pd have "p dvd n"
        by (rule dvd_trans)
      then have z: "n mod p = 0"
        by (simp only: dvd_eq_mod_eq_0)
      from primes p(1) have "p * p \<le> n \<longrightarrow> n mod p \<noteq> 0"
        by (rule bspec)
      from this pp have "n mod p \<noteq> 0"
        by (rule mp)
      from this z show False
        by (rule notE)
    qed
  qed
  then show ?thesis
    by (simp only: trial_division_from_iff no_factor_in_iff [OF small_primes_sorted])
qed

section \<open>Runs of agreement\<close>

lemma agree_run_add:
  "agree_run n a \<Longrightarrow> agree_run (n + 2 * a) b \<Longrightarrow> agree_run n (a + b)"
  by (induction a arbitrary: n) (simp_all add: add.assoc)

lemma agree_run_nth:
  "agree_run n k \<Longrightarrow> j < k \<Longrightarrow> agree (n + 2 * j)"
proof (induction k arbitrary: n j)
  case 0
  then show ?case
    by simp
next
  case (Suc k)
  show ?case
  proof (cases j)
    case 0
    with Suc.prems show ?thesis
      by simp
  next
    case (Suc i)
    with Suc.prems Suc.IH [of "n + 2" i] show ?thesis
      by simp
  qed
qed

text \<open>
  From a run of agreement that starts at 3 to the two tests of the model and of the
  specification on every number up to its end.
\<close>

lemma agree_IsPrime:
  assumes "agree n" and "odd n" and "3 \<le> n" and "n < 10201"
  shows "IsPrime (of_nat n) = Inr (trial_division_prime n)"
proof -
  from assms(2-4) have "IsPrime (of_nat n) = Inr (MillerRabin_nat n (if n < 2047 then [2] else [3, 2]))"
    by (intro IsPrime_nat) simp_all
  also from assms(1) have "\<dots> = Inr (no_factor_in n small_primes)"
    by (simp add: agree_def)
  also from assms(3,4) have "\<dots> = Inr (trial_division_prime n)"
    by (simp add: trial_division_prime_def trial_division_small_primes)
  finally show ?thesis .
qed

lemma even_IsPrime:
  assumes "even n" and "4 \<le> n" and "n < 2 ^ 32"
  shows "IsPrime (of_nat n) = Inr (trial_division_prime n)"
proof -
  from assms(3) have un: "unat (of_nat n :: uint32) = n"
    by (simp add: unat_of_nat take_bit_nat_eq_self_iff)
  have "unat ((of_nat n :: uint32) mod 2) = n mod 2"
    by (simp add: unat_mod_distrib un)
  with assms(1) have "(of_nat n :: uint32) mod 2 = 0"
    by (simp add: unat_eq_zero [symmetric])
  then have "IsPrime (of_nat n) = Inr False"
    by (simp add: IsPrime_def IsPrime_with_def)
  moreover from assms(1,2) have "\<not> trial_division_from n 2"
    by (subst trial_division_from.simps) auto
  ultimately show ?thesis
    by (simp add: trial_division_prime_def)
qed

lemma one_IsPrime: "IsPrime (of_nat 1) = Inr (trial_division_prime 1)"
  by (simp add: IsPrime_def IsPrime_with_def trial_division_prime_def)

lemma agree_run_IsPrime:
  assumes run: "agree_run 3 k" and k: "2 * k + 1 < 10201"
    and n: "1 \<le> n" "n \<le> 2 * k + 2" "n \<noteq> 2"
  shows "IsPrime (of_nat n) = Inr (trial_division_prime n)"
proof (cases "even n")
  case True
  with n have "4 \<le> n"
    by presburger
  moreover from n k have "n < 2 ^ 32"
    by simp
  ultimately show ?thesis
    using True by (intro even_IsPrime)
next
  case False
  show ?thesis
  proof (cases "n = 1")
    case True
    then show ?thesis
      using one_IsPrime by simp
  next
    case ne: False
    with False n have n3: "3 \<le> n"
      by presburger
    define j where "j = (n - 3) div 2"
    from False n3 have nj: "n = 3 + 2 * j"
      unfolding j_def by presburger
    from False n(2) nj have "j < k"
      by presburger
    with run have "agree (3 + 2 * j)"
      by (rule agree_run_nth)
    then have "agree n"
      by (simp only: nj [symmetric])
    moreover from nj \<open>j < k\<close> k have "n < 10201"
      by simp
    ultimately show ?thesis
      using False n3 by (intro agree_IsPrime)
  qed
qed

section \<open>The two tests on the numbers up to 10000\<close>

text \<open>
  The odd numbers from 3 to 9999, a hundred at a time: on each of them the witness test
  and trial division by the small primes give the same answer. Each line is an evaluation.
\<close>

lemma agree_from_3: "agree_run 3 100"
  by (simp only: eval_rules cong: if_weak_cong)

lemma agree_from_203: "agree_run 203 100"
  by (simp only: eval_rules cong: if_weak_cong)

lemma agree_from_403: "agree_run 403 100"
  by (simp only: eval_rules cong: if_weak_cong)

lemma agree_from_603: "agree_run 603 100"
  by (simp only: eval_rules cong: if_weak_cong)

lemma agree_from_803: "agree_run 803 100"
  by (simp only: eval_rules cong: if_weak_cong)

lemma agree_from_1003: "agree_run 1003 100"
  by (simp only: eval_rules cong: if_weak_cong)

lemma agree_from_1203: "agree_run 1203 100"
  by (simp only: eval_rules cong: if_weak_cong)

lemma agree_from_1403: "agree_run 1403 100"
  by (simp only: eval_rules cong: if_weak_cong)

lemma agree_from_1603: "agree_run 1603 100"
  by (simp only: eval_rules cong: if_weak_cong)

lemma agree_from_1803: "agree_run 1803 100"
  by (simp only: eval_rules cong: if_weak_cong)

lemma agree_from_2003: "agree_run 2003 100"
  by (simp only: eval_rules cong: if_weak_cong)

lemma agree_from_2203: "agree_run 2203 100"
  by (simp only: eval_rules cong: if_weak_cong)

lemma agree_from_2403: "agree_run 2403 100"
  by (simp only: eval_rules cong: if_weak_cong)

lemma agree_from_2603: "agree_run 2603 100"
  by (simp only: eval_rules cong: if_weak_cong)

lemma agree_from_2803: "agree_run 2803 100"
  by (simp only: eval_rules cong: if_weak_cong)

lemma agree_from_3003: "agree_run 3003 100"
  by (simp only: eval_rules cong: if_weak_cong)

lemma agree_from_3203: "agree_run 3203 100"
  by (simp only: eval_rules cong: if_weak_cong)

lemma agree_from_3403: "agree_run 3403 100"
  by (simp only: eval_rules cong: if_weak_cong)

lemma agree_from_3603: "agree_run 3603 100"
  by (simp only: eval_rules cong: if_weak_cong)

lemma agree_from_3803: "agree_run 3803 100"
  by (simp only: eval_rules cong: if_weak_cong)

lemma agree_from_4003: "agree_run 4003 100"
  by (simp only: eval_rules cong: if_weak_cong)

lemma agree_from_4203: "agree_run 4203 100"
  by (simp only: eval_rules cong: if_weak_cong)

lemma agree_from_4403: "agree_run 4403 100"
  by (simp only: eval_rules cong: if_weak_cong)

lemma agree_from_4603: "agree_run 4603 100"
  by (simp only: eval_rules cong: if_weak_cong)

lemma agree_from_4803: "agree_run 4803 100"
  by (simp only: eval_rules cong: if_weak_cong)

lemma agree_from_5003: "agree_run 5003 100"
  by (simp only: eval_rules cong: if_weak_cong)

lemma agree_from_5203: "agree_run 5203 100"
  by (simp only: eval_rules cong: if_weak_cong)

lemma agree_from_5403: "agree_run 5403 100"
  by (simp only: eval_rules cong: if_weak_cong)

lemma agree_from_5603: "agree_run 5603 100"
  by (simp only: eval_rules cong: if_weak_cong)

lemma agree_from_5803: "agree_run 5803 100"
  by (simp only: eval_rules cong: if_weak_cong)

lemma agree_from_6003: "agree_run 6003 100"
  by (simp only: eval_rules cong: if_weak_cong)

lemma agree_from_6203: "agree_run 6203 100"
  by (simp only: eval_rules cong: if_weak_cong)

lemma agree_from_6403: "agree_run 6403 100"
  by (simp only: eval_rules cong: if_weak_cong)

lemma agree_from_6603: "agree_run 6603 100"
  by (simp only: eval_rules cong: if_weak_cong)

lemma agree_from_6803: "agree_run 6803 100"
  by (simp only: eval_rules cong: if_weak_cong)

lemma agree_from_7003: "agree_run 7003 100"
  by (simp only: eval_rules cong: if_weak_cong)

lemma agree_from_7203: "agree_run 7203 100"
  by (simp only: eval_rules cong: if_weak_cong)

lemma agree_from_7403: "agree_run 7403 100"
  by (simp only: eval_rules cong: if_weak_cong)

lemma agree_from_7603: "agree_run 7603 100"
  by (simp only: eval_rules cong: if_weak_cong)

lemma agree_from_7803: "agree_run 7803 100"
  by (simp only: eval_rules cong: if_weak_cong)

lemma agree_from_8003: "agree_run 8003 100"
  by (simp only: eval_rules cong: if_weak_cong)

lemma agree_from_8203: "agree_run 8203 100"
  by (simp only: eval_rules cong: if_weak_cong)

lemma agree_from_8403: "agree_run 8403 100"
  by (simp only: eval_rules cong: if_weak_cong)

lemma agree_from_8603: "agree_run 8603 100"
  by (simp only: eval_rules cong: if_weak_cong)

lemma agree_from_8803: "agree_run 8803 100"
  by (simp only: eval_rules cong: if_weak_cong)

lemma agree_from_9003: "agree_run 9003 100"
  by (simp only: eval_rules cong: if_weak_cong)

lemma agree_from_9203: "agree_run 9203 100"
  by (simp only: eval_rules cong: if_weak_cong)

lemma agree_from_9403: "agree_run 9403 100"
  by (simp only: eval_rules cong: if_weak_cong)

lemma agree_from_9603: "agree_run 9603 100"
  by (simp only: eval_rules cong: if_weak_cong)

lemma agree_from_9803: "agree_run 9803 99"
  by (simp only: eval_rules cong: if_weak_cong)

lemma agree_to_9999: "agree_run 3 4999"
proof -
  note r100 = agree_from_3
  have r200: "agree_run 3 200"
    using agree_run_add [OF r100, of 100] agree_from_203 by simp
  have r300: "agree_run 3 300"
    using agree_run_add [OF r200, of 100] agree_from_403 by simp
  have r400: "agree_run 3 400"
    using agree_run_add [OF r300, of 100] agree_from_603 by simp
  have r500: "agree_run 3 500"
    using agree_run_add [OF r400, of 100] agree_from_803 by simp
  have r600: "agree_run 3 600"
    using agree_run_add [OF r500, of 100] agree_from_1003 by simp
  have r700: "agree_run 3 700"
    using agree_run_add [OF r600, of 100] agree_from_1203 by simp
  have r800: "agree_run 3 800"
    using agree_run_add [OF r700, of 100] agree_from_1403 by simp
  have r900: "agree_run 3 900"
    using agree_run_add [OF r800, of 100] agree_from_1603 by simp
  have r1000: "agree_run 3 1000"
    using agree_run_add [OF r900, of 100] agree_from_1803 by simp
  have r1100: "agree_run 3 1100"
    using agree_run_add [OF r1000, of 100] agree_from_2003 by simp
  have r1200: "agree_run 3 1200"
    using agree_run_add [OF r1100, of 100] agree_from_2203 by simp
  have r1300: "agree_run 3 1300"
    using agree_run_add [OF r1200, of 100] agree_from_2403 by simp
  have r1400: "agree_run 3 1400"
    using agree_run_add [OF r1300, of 100] agree_from_2603 by simp
  have r1500: "agree_run 3 1500"
    using agree_run_add [OF r1400, of 100] agree_from_2803 by simp
  have r1600: "agree_run 3 1600"
    using agree_run_add [OF r1500, of 100] agree_from_3003 by simp
  have r1700: "agree_run 3 1700"
    using agree_run_add [OF r1600, of 100] agree_from_3203 by simp
  have r1800: "agree_run 3 1800"
    using agree_run_add [OF r1700, of 100] agree_from_3403 by simp
  have r1900: "agree_run 3 1900"
    using agree_run_add [OF r1800, of 100] agree_from_3603 by simp
  have r2000: "agree_run 3 2000"
    using agree_run_add [OF r1900, of 100] agree_from_3803 by simp
  have r2100: "agree_run 3 2100"
    using agree_run_add [OF r2000, of 100] agree_from_4003 by simp
  have r2200: "agree_run 3 2200"
    using agree_run_add [OF r2100, of 100] agree_from_4203 by simp
  have r2300: "agree_run 3 2300"
    using agree_run_add [OF r2200, of 100] agree_from_4403 by simp
  have r2400: "agree_run 3 2400"
    using agree_run_add [OF r2300, of 100] agree_from_4603 by simp
  have r2500: "agree_run 3 2500"
    using agree_run_add [OF r2400, of 100] agree_from_4803 by simp
  have r2600: "agree_run 3 2600"
    using agree_run_add [OF r2500, of 100] agree_from_5003 by simp
  have r2700: "agree_run 3 2700"
    using agree_run_add [OF r2600, of 100] agree_from_5203 by simp
  have r2800: "agree_run 3 2800"
    using agree_run_add [OF r2700, of 100] agree_from_5403 by simp
  have r2900: "agree_run 3 2900"
    using agree_run_add [OF r2800, of 100] agree_from_5603 by simp
  have r3000: "agree_run 3 3000"
    using agree_run_add [OF r2900, of 100] agree_from_5803 by simp
  have r3100: "agree_run 3 3100"
    using agree_run_add [OF r3000, of 100] agree_from_6003 by simp
  have r3200: "agree_run 3 3200"
    using agree_run_add [OF r3100, of 100] agree_from_6203 by simp
  have r3300: "agree_run 3 3300"
    using agree_run_add [OF r3200, of 100] agree_from_6403 by simp
  have r3400: "agree_run 3 3400"
    using agree_run_add [OF r3300, of 100] agree_from_6603 by simp
  have r3500: "agree_run 3 3500"
    using agree_run_add [OF r3400, of 100] agree_from_6803 by simp
  have r3600: "agree_run 3 3600"
    using agree_run_add [OF r3500, of 100] agree_from_7003 by simp
  have r3700: "agree_run 3 3700"
    using agree_run_add [OF r3600, of 100] agree_from_7203 by simp
  have r3800: "agree_run 3 3800"
    using agree_run_add [OF r3700, of 100] agree_from_7403 by simp
  have r3900: "agree_run 3 3900"
    using agree_run_add [OF r3800, of 100] agree_from_7603 by simp
  have r4000: "agree_run 3 4000"
    using agree_run_add [OF r3900, of 100] agree_from_7803 by simp
  have r4100: "agree_run 3 4100"
    using agree_run_add [OF r4000, of 100] agree_from_8003 by simp
  have r4200: "agree_run 3 4200"
    using agree_run_add [OF r4100, of 100] agree_from_8203 by simp
  have r4300: "agree_run 3 4300"
    using agree_run_add [OF r4200, of 100] agree_from_8403 by simp
  have r4400: "agree_run 3 4400"
    using agree_run_add [OF r4300, of 100] agree_from_8603 by simp
  have r4500: "agree_run 3 4500"
    using agree_run_add [OF r4400, of 100] agree_from_8803 by simp
  have r4600: "agree_run 3 4600"
    using agree_run_add [OF r4500, of 100] agree_from_9003 by simp
  have r4700: "agree_run 3 4700"
    using agree_run_add [OF r4600, of 100] agree_from_9203 by simp
  have r4800: "agree_run 3 4800"
    using agree_run_add [OF r4700, of 100] agree_from_9403 by simp
  have r4900: "agree_run 3 4900"
    using agree_run_add [OF r4800, of 100] agree_from_9603 by simp
  have r4999: "agree_run 3 4999"
    using agree_run_add [OF r4900, of 99] agree_from_9803 by simp
  show ?thesis
    by (rule r4999)
qed

text \<open>
  Claim C2, as the code has it: for every \<open>n\<close> from 1 to 10000 other than 2,
  \<^verbatim>\<open>IsPrime(n)\<close> returns true exactly when trial division finds \<open>n\<close> prime.
\<close>

theorem IsPrime_matches_trial_division:
  "\<forall>n\<in>{1..10000}. n \<noteq> 2 \<longrightarrow> IsPrime (of_nat n) = Inr (trial_division_prime n)"
proof (intro ballI impI)
  fix n :: nat
  assume "n \<in> {1..10000}" and "n \<noteq> 2"
  then have n: "1 \<le> n" "n \<le> 2 * 4999 + 2" "n \<noteq> 2"
    by simp_all
  have "2 * 4999 + 1 < (10201 :: nat)"
    by simp
  from agree_to_9999 this n show "IsPrime (of_nat n) = Inr (trial_division_prime n)"
    by (rule agree_run_IsPrime)
qed

theorem IsPrime_matches_trial_division_witness:
  "(7 :: nat) \<in> {1..10000} \<and> (7 :: nat) \<noteq> 2
   \<and> IsPrime (of_nat 7) = Inr (trial_division_prime 7) \<and> trial_division_prime 7"
proof -
  have "(7 :: nat) \<in> {1..10000}" and "(7 :: nat) \<noteq> 2"
    by simp_all
  moreover from IsPrime_matches_trial_division this
  have "IsPrime (of_nat 7) = Inr (trial_division_prime 7)"
    by blast
  moreover have "trial_division_prime 7"
    by (simp add: trial_division_prime_def trial_division_from.simps)
  ultimately show ?thesis
    by blast
qed

text \<open>
  At 2 the claim as written fails: trial division finds 2 prime, and \<^verbatim>\<open>IsPrime\<close> returns
  false on every even number.
\<close>

theorem IsPrime_two_counterexample:
  "(2 :: nat) \<in> {1..10000} \<and> trial_division_prime 2 \<and> IsPrime (of_nat 2) = Inr False"
  by (simp add: trial_division_prime_def trial_division_from.simps IsPrime_def IsPrime_with_def)

section \<open>The candidates of ten digits\<close>

text \<open>
  In the round of order 8 the records have eight digits, the numbers that are counted have
  nine, and the loop over \<open>v\<close> of lines 221 to 225 puts a tenth digit before them:
  \<^verbatim>\<open>PwValN\<close> is \<open>10 ^ 9\<close>. The sum \<^verbatim>\<open>num + PwValN * v\<close> is a \<^verbatim>\<open>uint32_t\<close>; from 4,294,967,296
  on it wraps, and \<^verbatim>\<open>IsPrime\<close> is asked about another number than the one with the digit
  \<open>v\<close> before \<open>num\<close>.

  From 25,326,001 on \<^verbatim>\<open>IsPrime\<close> hands an odd candidate to \<^verbatim>\<open>MillerRabin\<close> with the
  witnesses 2, 7 and 61, which are read from the end of the array.
\<close>

lemma IsPrime_nat_top:
  assumes "odd n" and "25326001 \<le> n" and "n < 2 ^ 32"
  shows "IsPrime (of_nat n) = Inr (MillerRabin_nat n [61, 7, 2])"
proof -
  let ?w = "of_nat n :: uint32"
  from assms(3) have un: "unat ?w = n"
    by (simp add: unat_of_nat take_bit_nat_eq_self_iff)
  have "unat (?w mod 2) = n mod 2"
    by (simp add: unat_mod_distrib un)
  with assms(1) have "unat (?w mod 2) \<noteq> 0"
    by (simp add: odd_iff_mod_2_eq_one)
  then have odd: "?w mod 2 \<noteq> 0"
    by (metis unat_0)
  from assms(2) have big: "\<not> ?w \<le> 1" and gt: "1 < unat ?w"
    by (simp_all add: word_le_nat_alt un)
  from assms(2) have ranges: "\<not> ?w < 2047" "\<not> ?w < 1373653" "\<not> ?w < 9080191" "\<not> ?w < 25326001"
    by (simp_all add: word_less_nat_alt un)
  have "MillerRabin (ucast ?w) [2, 7, 61] 3 = Inr (MillerRabin_nat n [61, 7, 2])"
    using MillerRabin_nat_eq [OF gt, of 3 "[2, 7, 61]"] by (simp add: un)
  then show ?thesis
    using odd big ranges below_last_threshold [of ?w] by (simp add: IsPrime_def IsPrime_with_def)
qed

lemma run_126934673: "MillerRabin_nat 126934673 [61, 7, 2]"
  by (simp only: eval_rules cong: if_weak_cong)

lemma run_1126934673: "\<not> MillerRabin_nat 1126934673 [61, 7, 2]"
  by (simp only: eval_rules cong: if_weak_cong)

lemma run_2126934673: "\<not> MillerRabin_nat 2126934673 [61, 7, 2]"
  by (simp only: eval_rules cong: if_weak_cong)

lemma run_3126934673: "\<not> MillerRabin_nat 3126934673 [61, 7, 2]"
  by (simp only: eval_rules cong: if_weak_cong)

lemma run_4126934673: "\<not> MillerRabin_nat 4126934673 [61, 7, 2]"
  by (simp only: eval_rules cong: if_weak_cong)

lemma run_831967377: "\<not> MillerRabin_nat 831967377 [61, 7, 2]"
  by (simp only: eval_rules cong: if_weak_cong)

lemma run_1831967377: "\<not> MillerRabin_nat 1831967377 [61, 7, 2]"
  by (simp only: eval_rules cong: if_weak_cong)

lemma run_2831967377: "MillerRabin_nat 2831967377 [61, 7, 2]"
  by (simp only: eval_rules cong: if_weak_cong)

text \<open>
  The calls of \<^verbatim>\<open>IsPrime\<close> that the loop over \<open>v\<close> makes for \<open>num = 126934673\<close> in the
  round of order 8. From \<open>v = 5\<close> on the sum leaves 32 bits and the candidate that is
  tested is the sum less \<open>2 ^ 32\<close>: 831,967,377 for 5,126,934,673, then 1,831,967,377 and
  2,831,967,377. The last one is accepted, and the loop ends at \<open>v = 7\<close>.
\<close>

lemma IsPrime_126934673: "IsPrime 126934673 = Inr True"
  using IsPrime_nat_top [of 126934673] run_126934673 by simp

lemma IsPrime_digit_1: "IsPrime (126934673 + 1000000000 * ucast (1 :: uint16)) = Inr False"
  using IsPrime_nat_top [of 1126934673] run_1126934673 by simp

lemma IsPrime_digit_2: "IsPrime (126934673 + 1000000000 * ucast (2 :: uint16)) = Inr False"
  using IsPrime_nat_top [of 2126934673] run_2126934673 by simp

lemma IsPrime_digit_3: "IsPrime (126934673 + 1000000000 * ucast (3 :: uint16)) = Inr False"
  using IsPrime_nat_top [of 3126934673] run_3126934673 by simp

lemma IsPrime_digit_4: "IsPrime (126934673 + 1000000000 * ucast (4 :: uint16)) = Inr False"
  using IsPrime_nat_top [of 4126934673] run_4126934673 by simp

lemma wrapped_digit_5: "126934673 + 1000000000 * ucast (5 :: uint16) = (831967377 :: uint32)"
  by simp

lemma wrapped_digit_6: "126934673 + 1000000000 * ucast (6 :: uint16) = (1831967377 :: uint32)"
  by simp

lemma wrapped_digit_7: "126934673 + 1000000000 * ucast (7 :: uint16) = (2831967377 :: uint32)"
  by simp

lemma IsPrime_digit_5: "IsPrime (126934673 + 1000000000 * ucast (5 :: uint16)) = Inr False"
  unfolding wrapped_digit_5 using IsPrime_nat_top [of 831967377] run_831967377 by simp

lemma IsPrime_digit_6: "IsPrime (126934673 + 1000000000 * ucast (6 :: uint16)) = Inr False"
  unfolding wrapped_digit_6 using IsPrime_nat_top [of 1831967377] run_1831967377 by simp

lemma IsPrime_digit_7: "IsPrime (126934673 + 1000000000 * ucast (7 :: uint16)) = Inr True"
  unfolding wrapped_digit_7 using IsPrime_nat_top [of 2831967377] run_2831967377 by simp

lemma Power_10_9: "Power 10 (ucast ((8 :: uint16) + 1)) = 1000000000"
  by (simp add: Power_def Power_for.simps)

lemma FindLTP_for_v_126934673:
  "FindLTP_for_v 126934673 1000000000 1 = Inr 7"
proof -
  have "FindLTP_for_v 126934673 1000000000 7 = Inr 7"
    using IsPrime_digit_7 by (subst FindLTP_for_v.simps) simp
  then have "FindLTP_for_v 126934673 1000000000 6 = Inr 7"
    using IsPrime_digit_6 by (subst FindLTP_for_v.simps) simp
  then have "FindLTP_for_v 126934673 1000000000 5 = Inr 7"
    using IsPrime_digit_5 by (subst FindLTP_for_v.simps) simp
  then have "FindLTP_for_v 126934673 1000000000 4 = Inr 7"
    using IsPrime_digit_4 by (subst FindLTP_for_v.simps) simp
  then have "FindLTP_for_v 126934673 1000000000 3 = Inr 7"
    using IsPrime_digit_3 by (subst FindLTP_for_v.simps) simp
  then have "FindLTP_for_v 126934673 1000000000 2 = Inr 7"
    using IsPrime_digit_2 by (subst FindLTP_for_v.simps) simp
  then show ?thesis
    using IsPrime_digit_1 by (subst FindLTP_for_v.simps) simp
qed

text \<open>
  A product of two factors above 1 is not prime for the oracle. Each of the nine numbers
  \<open>126934673 + v * 10 ^ 9\<close> is such a product.
\<close>

lemma product_not_prime:
  assumes "n = d * q" and "1 < d" and "1 < q"
  shows "\<not> trial_division_prime n"
proof
  assume "trial_division_prime n"
  then have "\<forall>e. e dvd n \<longrightarrow> e = 1 \<or> e = n"
    by (simp add: trial_division_prime_iff)
  moreover have "d dvd n"
    using assms(1) by simp
  ultimately have "d = 1 \<or> d = n"
    by blast
  with assms show False
    by auto
qed

text \<open>
  None of the nine numbers that are 126934673 with a digit from 1 to 9 put before it is
  prime.
\<close>

lemma extensions_of_126934673:
  "\<forall>v\<in>{1..9}. \<not> trial_division_prime (126934673 + v * 10 ^ (8 + 1))"
proof
  fix v :: nat
  assume "v \<in> {1..9}"
  then have "v = 1 \<or> v = 2 \<or> v = 3 \<or> v = 4 \<or> v = 5 \<or> v = 6 \<or> v = 7 \<or> v = 8 \<or> v = 9"
    by (simp only: atLeastAtMost_iff) arith
  moreover have "\<not> trial_division_prime (126934673 + 1 * 10 ^ (8 + 1))"
    by (rule product_not_prime [of _ 3 375644891]) simp_all
  moreover have "\<not> trial_division_prime (126934673 + 2 * 10 ^ (8 + 1))"
    by (rule product_not_prime [of _ 6907 307939]) simp_all
  moreover have "\<not> trial_division_prime (126934673 + 3 * 10 ^ (8 + 1))"
    by (rule product_not_prime [of _ 43 72719411]) simp_all
  moreover have "\<not> trial_division_prime (126934673 + 4 * 10 ^ (8 + 1))"
    by (rule product_not_prime [of _ 3 1375644891]) simp_all
  moreover have "\<not> trial_division_prime (126934673 + 5 * 10 ^ (8 + 1))"
    by (rule product_not_prime [of _ 7 732419239]) simp_all
  moreover have "\<not> trial_division_prime (126934673 + 6 * 10 ^ (8 + 1))"
    by (rule product_not_prime [of _ 37 165592829]) simp_all
  moreover have "\<not> trial_division_prime (126934673 + 7 * 10 ^ (8 + 1))"
    by (rule product_not_prime [of _ 3 2375644891]) simp_all
  moreover have "\<not> trial_division_prime (126934673 + 8 * 10 ^ (8 + 1))"
    by (rule product_not_prime [of _ 11 738812243]) simp_all
  moreover have "\<not> trial_division_prime (126934673 + 9 * 10 ^ (8 + 1))"
    by (rule product_not_prime [of _ 389 23462557]) simp_all
  ultimately show "\<not> trial_division_prime (126934673 + v * 10 ^ (8 + 1))"
    by (elim disjE) (hypsubst, assumption)+
qed


text \<open>
  Claim C7. In the round of order 8, the turn of the scan that reads the record 26934673
  with the leading digit 1 counts 126934673 and, unless that is the number asked for,
  stores it at the write cursor, although none of the nine values with a digit \<open>v\<close> from 1
  to 9 put before it, \<open>126934673 + v * 10 ^ (8 + 1)\<close>, is prime: the buffer then holds a
  value that has no extension.
\<close>

theorem FindLTP_body_stores_unextendable:
  assumes "order rd = 8" and "PwVal rd = 100000000"
    and "unat u < 680" and "LTP_Buf st ! unat u = 26934673"
    and "unat (LTP_IndexFree st) < 680" and "PrimesCount st + 1 \<noteq> LTP_n"
  shows "FindLTP_body LTP_n rd st 1 u
           = Inr (Continue (FindLTP_store (st\<lparr>PrimesCount := PrimesCount st + 1\<rparr>) 126934673,
                            if u + 1 \<ge> 680 then 0 else u + 1))
    \<and> LTP_Buf (FindLTP_store (st\<lparr>PrimesCount := PrimesCount st + 1\<rparr>) 126934673)
           = (LTP_Buf st)[unat (LTP_IndexFree st) := 126934673]
    \<and> (\<forall>v\<in>{1..9}. \<not> trial_division_prime (126934673 + v * 10 ^ (8 + 1)))"
proof (intro conjI)
  have num: "LTP_Buf st ! unat u + ucast (1 :: uint16) * PwVal rd = 126934673"
    using assms(2,4) by simp
  have pw: "Power 10 (ucast (order rd + 1)) = 1000000000"
    using assms(1) Power_10_9 by simp
  show "FindLTP_body LTP_n rd st 1 u
          = Inr (Continue (FindLTP_store (st\<lparr>PrimesCount := PrimesCount st + 1\<rparr>) 126934673,
                           if u + 1 \<ge> 680 then 0 else u + 1))"
    unfolding FindLTP_body_def Let_def num pw
    using assms(3,5,6) IsPrime_126934673 FindLTP_for_v_126934673
    by (simp add: BUF_LENGTH_def)
  show "LTP_Buf (FindLTP_store (st\<lparr>PrimesCount := PrimesCount st + 1\<rparr>) 126934673)
          = (LTP_Buf st)[unat (LTP_IndexFree st) := 126934673]"
    by (simp add: FindLTP_store_def)
  show "\<forall>v\<in>{1..9}. \<not> trial_division_prime (126934673 + v * 10 ^ (8 + 1))"
    by (rule extensions_of_126934673)
qed

text \<open>
  That turn with the record in slot 268, the write cursor at 590 and 1622 numbers counted
  before it, for the index 1624: 126934673 is number 1623 and goes into slot 590. The
  slots that the turn does not read are left at 0 here.
\<close>

theorem FindLTP_body_stores_unextendable_witness:
  "FindLTP_body 1624 \<lparr>order = 8, PwVal = 100000000, LTP_IndexProc = 216, LTP_IndexOldFree = 589\<rparr>
       \<lparr>LTP_Buf = (replicate 680 0)[268 := 26934673], LTP_IndexFree = 590, PrimesCount = 1622\<rparr>
       1 268
     = Inr (Continue
         (\<lparr>LTP_Buf = (replicate 680 0)[268 := 26934673, 590 := 126934673], LTP_IndexFree = 591,
            PrimesCount = 1623\<rparr>, 269))
   \<and> \<not> trial_division_prime 1126934673 \<and> \<not> trial_division_prime 2126934673
   \<and> \<not> trial_division_prime 3126934673 \<and> \<not> trial_division_prime 4126934673
   \<and> \<not> trial_division_prime 5126934673 \<and> \<not> trial_division_prime 6126934673
   \<and> \<not> trial_division_prime 7126934673 \<and> \<not> trial_division_prime 8126934673
   \<and> \<not> trial_division_prime 9126934673"
proof -
  let ?rd = "\<lparr>order = 8, PwVal = 100000000, LTP_IndexProc = 216, LTP_IndexOldFree = 589\<rparr>"
  let ?st = "\<lparr>LTP_Buf = (replicate 680 (0 :: uint32))[268 := 26934673], LTP_IndexFree = 590,
              PrimesCount = 1622\<rparr>"
  have h: "order ?rd = 8" "PwVal ?rd = 100000000" "unat (268 :: uint16) < 680"
    "LTP_Buf ?st ! unat (268 :: uint16) = 26934673" "unat (LTP_IndexFree ?st) < 680"
    "PrimesCount ?st + 1 \<noteq> 1624"
    by simp_all
  note r = FindLTP_body_stores_unextendable [OF h]
  from r have "FindLTP_body 1624 ?rd ?st 1 268
      = Inr (Continue (FindLTP_store (?st\<lparr>PrimesCount := PrimesCount ?st + 1\<rparr>) 126934673, 269))"
    by simp
  moreover have "FindLTP_store (?st\<lparr>PrimesCount := PrimesCount ?st + 1\<rparr>) 126934673
      = \<lparr>LTP_Buf = (replicate 680 0)[268 := 26934673, 590 := 126934673], LTP_IndexFree = 591,
          PrimesCount = 1623\<rparr>"
    by (simp add: FindLTP_store_def)
  moreover from r have e: "\<forall>v\<in>{1..9}. \<not> trial_division_prime (126934673 + v * 10 ^ (8 + 1))"
    by simp
  have "\<not> trial_division_prime 1126934673" "\<not> trial_division_prime 2126934673"
    "\<not> trial_division_prime 3126934673" "\<not> trial_division_prime 4126934673"
    "\<not> trial_division_prime 5126934673" "\<not> trial_division_prime 6126934673"
    "\<not> trial_division_prime 7126934673" "\<not> trial_division_prime 8126934673"
    "\<not> trial_division_prime 9126934673"
    using e [rule_format, of 1] e [rule_format, of 2] e [rule_format, of 3]
      e [rule_format, of 4] e [rule_format, of 5] e [rule_format, of 6]
      e [rule_format, of 7] e [rule_format, of 8] e [rule_format, of 9]
    by simp_all
  ultimately show ?thesis
    by simp
qed

end
